theory Spec2Isabelle
  imports Complex_Main
begin

section \<open>Random circles on a WebGL canvas: the helper layer of circles.js and app.js\<close>

text \<open>
  The development embeds the functions of \<^verbatim>\<open>src/scripts/circles.js\<close> (and their
  copies in \<^verbatim>\<open>src/scripts/app.js\<close>): \<^verbatim>\<open>createAttribute\<close>, \<^verbatim>\<open>makeShader\<close>,
  \<^verbatim>\<open>createBuffer\<close> and \<^verbatim>\<open>generateCircleUniformData\<close>.

  Conventions of the embedding.
  \<^item> A JavaScript number is a double. A finite one is the real number it stands for;
    \<^verbatim>\<open>Infinity\<close>, \<^verbatim>\<open>-Infinity\<close> and \<^verbatim>\<open>NaN\<close> are one value \<open>NonFinite\<close>; the sign of
    zero is not kept. Every arithmetic operation is the exact operation followed by the
    rounding of IEEE 754 binary64 (to nearest, ties to even, overflow to infinity), and a
    store into a \<^verbatim>\<open>Float32Array\<close> rounds to binary32 in the same way. The arguments of
    a function are finite doubles. Loop counters, handles and the circle count are
    integers.
  \<^item> A parameter with a default value is an \<open>option\<close>: \<open>None\<close> is the omitted
    argument (\<^verbatim>\<open>undefined\<close>), which takes the default.
  \<^item> A \<^verbatim>\<open>throw\<close> is the \<open>Inl\<close> of a sum.
  \<^item> The WebGL context is external: its answers (compile status, info log, attribute
    locations) are fields of the context record, and every call made on it is appended
    to the record's trace, in order.
\<close>

subsection \<open>Numbers\<close>

text \<open>
  Rounding to nearest with ties to even, for a format of \<open>p\<close> significant bits whose
  smallest normal exponent is \<open>emin\<close>. \<open>binade\<close> is the exponent of the binade of
  \<open>x\<close>, \<open>emin\<close> for the subnormal numbers; \<open>quantum\<close> is the distance between
  neighbouring numbers of the format there; \<open>round_to\<close> rounds the multiple of the
  quantum. The exponent is not bounded above here: the formats cut off afterwards.
\<close>

definition round_half_even :: "real \<Rightarrow> int" where
  "round_half_even x =
     (if x - of_int \<lfloor>x\<rfloor> < 1 / 2 then \<lfloor>x\<rfloor>
      else if 1 / 2 < x - of_int \<lfloor>x\<rfloor> then \<lfloor>x\<rfloor> + 1
      else if even \<lfloor>x\<rfloor> then \<lfloor>x\<rfloor> else \<lfloor>x\<rfloor> + 1)"

definition binade :: "int \<Rightarrow> real \<Rightarrow> int" where
  "binade emin x = max emin \<lfloor>log 2 \<bar>x\<bar>\<rfloor>"

definition quantum :: "nat \<Rightarrow> int \<Rightarrow> real \<Rightarrow> real" where
  "quantum p emin x = 2 powi (binade emin x - int p + 1)"

definition round_to :: "nat \<Rightarrow> int \<Rightarrow> real \<Rightarrow> real" where
  "round_to p emin x =
     (if x = 0 then 0 else of_int (round_half_even (x / quantum p emin x)) * quantum p emin x)"

definition representable :: "nat \<Rightarrow> int \<Rightarrow> real \<Rightarrow> bool" where
  "representable p emin x \<longleftrightarrow> round_to p emin x = x"

text \<open>
  The value of a numeric expression: a finite double, or \<open>NonFinite\<close> for
  \<^verbatim>\<open>Infinity\<close>, \<^verbatim>\<open>-Infinity\<close> and \<^verbatim>\<open>NaN\<close>. A sum, a difference or a product with a
  non-finite operand is non-finite again.
\<close>

datatype number = Num real | NonFinite

text \<open>The double nearest to a real number: binary64 has 53 significant bits and normal
  exponents from -1022, and a result of magnitude \<open>2 ^ 1024\<close> or more is an infinity.\<close>

definition double_limit :: real where
  "double_limit = 2 ^ 1024"

definition to_double :: "real \<Rightarrow> number" where
  "to_double x =
     (let r = round_to 53 (- 1022) x in if \<bar>r\<bar> < double_limit then Num r else NonFinite)"

text \<open>\<^verbatim>\<open>Math.fround\<close>, the conversion applied by a store into a \<^verbatim>\<open>Float32Array\<close>:
  binary32 has 24 significant bits and normal exponents from -126, and a result of
  magnitude \<open>2 ^ 128\<close> or more is an infinity.\<close>

definition float32_limit :: real where
  "float32_limit = 2 ^ 128"

definition to_float32 :: "real \<Rightarrow> number" where
  "to_float32 x =
     (let r = round_to 24 (- 126) x in if \<bar>r\<bar> < float32_limit then Num r else NonFinite)"

fun fround :: "number \<Rightarrow> number" where
  "fround (Num x) = to_float32 x"
| "fround NonFinite = NonFinite"

definition is_double :: "real \<Rightarrow> bool" where
  "is_double x \<longleftrightarrow> to_double x = Num x"

definition is_float32 :: "real \<Rightarrow> bool" where
  "is_float32 x \<longleftrightarrow> fround (Num x) = Num x"

text \<open>The operators \<^verbatim>\<open>+\<close>, \<^verbatim>\<open>-\<close>, \<^verbatim>\<open>*\<close> and \<^verbatim>\<open>/\<close>. The source divides finite
  arguments only; a division by zero gives an infinity or \<^verbatim>\<open>NaN\<close>.\<close>

fun js_add :: "number \<Rightarrow> number \<Rightarrow> number" where
  "js_add (Num a) (Num b) = to_double (a + b)"
| "js_add a b = NonFinite"

fun js_sub :: "number \<Rightarrow> number \<Rightarrow> number" where
  "js_sub (Num a) (Num b) = to_double (a - b)"
| "js_sub a b = NonFinite"

fun js_mul :: "number \<Rightarrow> number \<Rightarrow> number" where
  "js_mul (Num a) (Num b) = to_double (a * b)"
| "js_mul a b = NonFinite"

definition js_div :: "real \<Rightarrow> real \<Rightarrow> number" where
  "js_div a b = (if b = 0 then NonFinite else to_double (a / b))"

subsection \<open>Attribute descriptors\<close>

text \<open>The \<^verbatim>\<open>AttributeObject\<close> of the source; \<open>'ty\<close> is the component type tag
  (\<^verbatim>\<open>gl.FLOAT\<close> in circles.js), which the helpers only pass on.\<close>

record 'ty attribute =
  attr_name :: string
  attr_size :: real
  attr_stride :: number
  attr_offset :: number
  attr_type :: 'ty
  attr_normalized :: bool

text \<open>\<^verbatim>\<open>Float32Array.BYTES_PER_ELEMENT\<close>.\<close>

definition BYTES_PER_ELEMENT :: real where
  "BYTES_PER_ELEMENT = 4"

text \<open>\<^verbatim>\<open>createAttribute(name, numElements, numVertex, type, offset = 0,
  typeSize = Float32Array.BYTES_PER_ELEMENT, normalized = false)\<close>.\<close>

definition createAttribute ::
  "string \<Rightarrow> real \<Rightarrow> real \<Rightarrow> 'ty \<Rightarrow> real option \<Rightarrow> real option \<Rightarrow> bool option
     \<Rightarrow> 'ty attribute" where
  "createAttribute name numElements numVertex type offset_opt typeSize_opt normalized_opt =
     (let offset = (case offset_opt of None \<Rightarrow> 0 | Some v \<Rightarrow> v);
          typeSize = (case typeSize_opt of None \<Rightarrow> BYTES_PER_ELEMENT | Some v \<Rightarrow> v);
          normalized = (case normalized_opt of None \<Rightarrow> False | Some v \<Rightarrow> v)
      in \<lparr> attr_name = name,
           attr_size = numElements,
           attr_stride = js_mul (Num numVertex) (Num typeSize),
           attr_offset = js_mul (Num offset) (Num typeSize),
           attr_type = type,
           attr_normalized = normalized \<rparr>)"

text \<open>The data-model invariant of a descriptor whose components are \<open>elementSize\<close>
  bytes wide: between one and four components, and the attribute ends inside the vertex
  (offset and stride being finite).\<close>

definition descriptor_invariant :: "real \<Rightarrow> 'ty attribute \<Rightarrow> bool" where
  "descriptor_invariant elementSize a \<longleftrightarrow>
     attr_size a \<in> {1, 2, 3, 4}
     \<and> (case (attr_offset a, attr_stride a) of
          (Num off, Num stride) \<Rightarrow> off + attr_size a * elementSize \<le> stride
        | _ \<Rightarrow> False)"

subsection \<open>The WebGL context\<close>

datatype shader_type = VERTEX_SHADER | FRAGMENT_SHADER

text \<open>The calls the helpers make on \<^verbatim>\<open>gl\<close>. Shaders, programs and buffers are
  handles (natural numbers); targets and usage hints are GLenum values.\<close>

datatype 'ty gl_call =
    CreateShader shader_type
  | ShaderSource nat string
  | CompileShader nat
  | GetShaderParameter_COMPILE_STATUS nat
  | GetShaderInfoLog nat
  | CreateBuffer
  | BindBuffer int nat
  | BufferData int "real list" int
  | GetAttribLocation nat string
  | VertexAttribPointer int real 'ty bool number number
  | EnableVertexAttribArray int

text \<open>
  \<open>compileStatus\<close> and \<open>infoLog\<close> are what the driver answers to
  \<^verbatim>\<open>getShaderParameter(shader, gl.COMPILE_STATUS)\<close> and \<^verbatim>\<open>getShaderInfoLog(shader)\<close>
  for a shader of the given stage and source (\<open>None\<close> is \<^verbatim>\<open>null\<close>);
  \<open>attribLocation\<close> is \<^verbatim>\<open>getAttribLocation(program, name)\<close>, which is \<open>-1\<close> when the
  program has no such attribute.
\<close>

record 'ty gl_context =
  compileStatus :: "shader_type \<Rightarrow> string \<Rightarrow> bool"
  infoLog :: "shader_type \<Rightarrow> string \<Rightarrow> string option"
  attribLocation :: "nat \<Rightarrow> string \<Rightarrow> int"
  nextHandle :: nat
  trace :: "'ty gl_call list"

definition ARRAY_BUFFER :: int where
  "ARRAY_BUFFER = 34962"

definition STATIC_DRAW :: int where
  "STATIC_DRAW = 35044"

definition FLOAT :: int where
  "FLOAT = 5126"

text \<open>A call on the context is recorded at the end of the trace.\<close>

definition call :: "'ty gl_call \<Rightarrow> 'ty gl_context \<Rightarrow> 'ty gl_context" where
  "call c gl = gl\<lparr>trace := trace gl @ [c]\<rparr>"

text \<open>\<^verbatim>\<open>gl.createShader\<close> and \<^verbatim>\<open>gl.createBuffer\<close> return a fresh handle.\<close>

definition fresh :: "'ty gl_call \<Rightarrow> 'ty gl_context \<Rightarrow> nat \<times> 'ty gl_context" where
  "fresh c gl = (nextHandle gl, call c (gl\<lparr>nextHandle := nextHandle gl + 1\<rparr>))"

subsection \<open>Thrown values\<close>

text \<open>\<open>Error msg\<close> is \<^verbatim>\<open>new Error(msg)\<close>; \<open>Thrown s\<close> is the bare string of
  \<^verbatim>\<open>throw "..."\<close>; \<open>TypeError\<close> is the read of a property of \<^verbatim>\<open>undefined\<close>;
  \<open>RangeError\<close> is a typed array of negative length.\<close>

datatype exn = Error string | Thrown string | TypeError | RangeError

subsection \<open>makeShader\<close>

text \<open>How a template literal prints a value that may be \<^verbatim>\<open>null\<close>.\<close>

definition template_text :: "string option \<Rightarrow> string" where
  "template_text v = (case v of None \<Rightarrow> ''null'' | Some s \<Rightarrow> s)"

definition makeShader ::
  "'ty gl_context \<Rightarrow> string \<Rightarrow> shader_type \<Rightarrow> (exn + nat) \<times> 'ty gl_context" where
  "makeShader gl shaderSource shaderType =
     (let (shader, gl1) = fresh (CreateShader shaderType) gl;
          gl2 = call (ShaderSource shader shaderSource) gl1;
          gl3 = call (CompileShader shader) gl2;
          gl4 = call (GetShaderParameter_COMPILE_STATUS shader) gl3
      in if \<not> compileStatus gl shaderType shaderSource
         then (let gl5 = call (GetShaderInfoLog shader) gl4
               in (Inl (Error (''ERROR compiling ''
                          @ (if shaderType = VERTEX_SHADER then ''vertex'' else ''fragment'')
                          @ '' shader: ''
                          @ template_text (infoLog gl shaderType shaderSource))),
                   gl5))
         else (Inr shader, gl4))"

subsection \<open>createBuffer\<close>

text \<open>The body of \<^verbatim>\<open>attributes.forEach((attr) => ...)\<close>, run over the list; the
  \<^verbatim>\<open>throw\<close> leaves the loop with the context as it is at that moment.\<close>

fun forEach_attr ::
  "nat \<Rightarrow> 'ty attribute list \<Rightarrow> 'ty gl_context \<Rightarrow> (exn + unit) \<times> 'ty gl_context" where
  "forEach_attr program [] gl = (Inr (), gl)"
| "forEach_attr program (attr # rest) gl =
     (let attrLocation = attribLocation gl program (attr_name attr);
          gl1 = call (GetAttribLocation program (attr_name attr)) gl
      in if attrLocation = - 1
         then (Inl (Thrown (''Can not find attribute '' @ attr_name attr @ ''.'')), gl1)
         else (let gl2 = call (VertexAttribPointer attrLocation (attr_size attr) (attr_type attr)
                                 (attr_normalized attr) (attr_stride attr) (attr_offset attr)) gl1;
                   gl3 = call (EnableVertexAttribArray attrLocation) gl2
               in forEach_attr program rest gl3))"

text \<open>\<^verbatim>\<open>createBuffer(gl, program, bufferData, attributes, type = gl.ARRAY_BUFFER,
  bufferDataType = gl.STATIC_DRAW)\<close>.\<close>

definition createBuffer ::
  "'ty gl_context \<Rightarrow> nat \<Rightarrow> real list \<Rightarrow> 'ty attribute list \<Rightarrow> int option \<Rightarrow> int option
     \<Rightarrow> (exn + unit) \<times> 'ty gl_context" where
  "createBuffer gl program bufferData attributes type_opt bufferDataType_opt =
     (let type = (case type_opt of None \<Rightarrow> ARRAY_BUFFER | Some v \<Rightarrow> v);
          bufferDataType = (case bufferDataType_opt of None \<Rightarrow> STATIC_DRAW | Some v \<Rightarrow> v);
          (buffer, gl1) = fresh CreateBuffer gl;
          gl2 = call (BindBuffer type buffer) gl1;
          gl3 = call (BufferData type bufferData bufferDataType) gl2
      in forEach_attr program attributes gl3)"

text \<open>The calls that configure and enable one attribute at location \<open>loc\<close>.\<close>

definition attr_calls :: "nat \<Rightarrow> int \<Rightarrow> 'ty attribute \<Rightarrow> 'ty gl_call list" where
  "attr_calls program loc attr =
     [GetAttribLocation program (attr_name attr),
      VertexAttribPointer loc (attr_size attr) (attr_type attr) (attr_normalized attr)
        (attr_stride attr) (attr_offset attr),
      EnableVertexAttribArray loc]"

text \<open>Whether a call configures or enables an attribute slot.\<close>

fun configures :: "'ty gl_call \<Rightarrow> bool" where
  "configures (VertexAttribPointer loc sz ty nrm stride off) = True"
| "configures (EnableVertexAttribArray loc) = True"
| "configures c = False"

text \<open>
  What the loop over the attributes adds to the trace and how it ends, read off the
  attribute locations: the attributes are looked up, configured and enabled in order up
  to the first one without a location, whose lookup is the last call.
\<close>

fun attr_trace :: "(string \<Rightarrow> int) \<Rightarrow> nat \<Rightarrow> 'ty attribute list \<Rightarrow> 'ty gl_call list" where
  "attr_trace loc program [] = []"
| "attr_trace loc program (attr # rest) =
     (if loc (attr_name attr) = - 1
      then [GetAttribLocation program (attr_name attr)]
      else attr_calls program (loc (attr_name attr)) attr @ attr_trace loc program rest)"

fun attr_outcome :: "(string \<Rightarrow> int) \<Rightarrow> 'ty attribute list \<Rightarrow> exn + unit" where
  "attr_outcome loc [] = Inr ()"
| "attr_outcome loc (attr # rest) =
     (if loc (attr_name attr) = - 1
      then Inl (Thrown (''Can not find attribute '' @ attr_name attr @ ''.''))
      else attr_outcome loc rest)"

subsection \<open>generateCircleUniformData\<close>

record circle =
  circle_x :: number
  circle_y :: number
  circle_r :: number

text \<open>\<^verbatim>\<open>radiusLimits.min\<close> and \<^verbatim>\<open>radiusLimits.max\<close>.\<close>

record radius_limits =
  min_lim :: real
  max_lim :: real

record canvas_dimensions =
  width :: real
  height :: real

text \<open>The module-level constant of circles.js.\<close>

definition NUM_CIRCLES :: nat where
  "NUM_CIRCLES = 12"

definition CIRCLE_ELEMENTS :: nat where
  "CIRCLE_ELEMENTS = 3"

definition sizeLimit :: "canvas_dimensions \<Rightarrow> real" where
  "sizeLimit canvasDimensions =
     (if width canvasDimensions < height canvasDimensions
      then width canvasDimensions else height canvasDimensions)"

definition MAX_RADIUS :: "radius_limits \<Rightarrow> canvas_dimensions \<Rightarrow> number" where
  "MAX_RADIUS radiusLimits canvasDimensions =
     js_div (sizeLimit canvasDimensions) (max_lim radiusLimits)"

definition MIN_RADIUS :: "radius_limits \<Rightarrow> canvas_dimensions \<Rightarrow> number" where
  "MIN_RADIUS radiusLimits canvasDimensions =
     js_div (sizeLimit canvasDimensions) (min_lim radiusLimits)"

text \<open>
  The first loop, \<^verbatim>\<open>for (let i = 0; i < numCircles; i++)\<close>. \<open>random\<close> is the sequence
  of values that the calls of \<^verbatim>\<open>Math.random()\<close> return, \<open>k\<close> the number of calls made
  so far; each round draws the radius, then x, then y, and pushes the record.
\<close>

function genLoop ::
  "(nat \<Rightarrow> real) \<Rightarrow> canvas_dimensions \<Rightarrow> number \<Rightarrow> number \<Rightarrow> int \<Rightarrow> nat \<Rightarrow> nat
     \<Rightarrow> circle list \<Rightarrow> circle list" where
  "genLoop random canvasDimensions maxRadius minRadius numCircles i k circles =
     (if int i < numCircles
      then (let radius = js_add (js_mul (Num (random k)) (js_sub maxRadius minRadius)) minRadius;
                x = js_add (js_mul (Num (random (k + 1)))
                              (js_sub (Num (width canvasDimensions)) (js_mul (Num 2) radius)))
                      radius;
                y = js_add (js_mul (Num (random (k + 2)))
                              (js_sub (Num (height canvasDimensions)) (js_mul (Num 2) radius)))
                      radius
            in genLoop random canvasDimensions maxRadius minRadius numCircles (i + 1) (k + 3)
                 (circles @ [\<lparr> circle_x = x, circle_y = y, circle_r = radius \<rparr>]))
      else circles)"
  by pat_completeness auto
termination
  by (relation "measure (\<lambda>(random, canvasDimensions, maxRadius, minRadius, numCircles, i, k, circles).
                   nat (numCircles - int i))") auto

declare genLoop.simps [simp del]

text \<open>The array \<^verbatim>\<open>circles\<close> when the first loop is over.\<close>

definition circlesGenerated ::
  "(nat \<Rightarrow> real) \<Rightarrow> int \<Rightarrow> radius_limits \<Rightarrow> canvas_dimensions \<Rightarrow> circle list" where
  "circlesGenerated random numCircles radiusLimits canvasDimensions =
     genLoop random canvasDimensions
       (MAX_RADIUS radiusLimits canvasDimensions) (MIN_RADIUS radiusLimits canvasDimensions)
       numCircles 0 0 []"

text \<open>A store into a \<^verbatim>\<open>Float32Array\<close>: the value is rounded to binary32, and an index
  outside the array is ignored.\<close>

definition f32_store :: "number list \<Rightarrow> nat \<Rightarrow> number \<Rightarrow> number list" where
  "f32_store a idx v = (if idx < length a then a[idx := fround v] else a)"

text \<open>
  The second loop, \<^verbatim>\<open>for (let i = 0; i < NUM_CIRCLES; i++)\<close>. Beyond the end of
  \<^verbatim>\<open>circles\<close> the read \<^verbatim>\<open>circles[i]\<close> is \<^verbatim>\<open>undefined\<close>, and \<^verbatim>\<open>circle.x\<close> throws.
\<close>

function packLoop :: "circle list \<Rightarrow> nat \<Rightarrow> number list \<Rightarrow> exn + number list" where
  "packLoop circles i uniformData =
     (if i < NUM_CIRCLES
      then (let baseIndex = CIRCLE_ELEMENTS * i
            in if i < length circles
               then (let circle = circles ! i;
                         u1 = f32_store uniformData (baseIndex + 0) (circle_x circle);
                         u2 = f32_store u1 (baseIndex + 1) (circle_y circle);
                         u3 = f32_store u2 (baseIndex + 2) (circle_r circle)
                     in packLoop circles (i + 1) u3)
               else Inl TypeError)
      else Inr uniformData)"
  by pat_completeness auto
termination
  by (relation "measure (\<lambda>(circles, i, uniformData). NUM_CIRCLES - i)") auto

declare packLoop.simps [simp del]

text \<open>
  \<^verbatim>\<open>generateCircleUniformData(numCircles, radiusLimits, canvasDimensions)\<close>.
  \<^verbatim>\<open>new Float32Array(n)\<close> is \<open>n\<close> zeros, and throws for a negative \<open>n\<close>.
\<close>

definition generateCircleUniformData ::
  "(nat \<Rightarrow> real) \<Rightarrow> int \<Rightarrow> radius_limits \<Rightarrow> canvas_dimensions \<Rightarrow> exn + number list" where
  "generateCircleUniformData random numCircles radiusLimits canvasDimensions =
     (let circles = circlesGenerated random numCircles radiusLimits canvasDimensions
      in if int CIRCLE_ELEMENTS * numCircles < 0
         then Inl RangeError
         else packLoop circles 0 (replicate (nat (int CIRCLE_ELEMENTS * numCircles)) (Num 0)))"

subsection \<open>Auxiliary notions\<close>

text \<open>Component \<open>m\<close> (0, 1 or 2) of a record as it lies in the flat array: x, y, r.\<close>

definition component :: "circle \<Rightarrow> nat \<Rightarrow> number" where
  "component c m = (if m = 0 then circle_x c else if m = 1 then circle_y c else circle_r c)"

text \<open>The three expressions of one round of the first loop: the radius from a draw
  \<open>u\<close>, and a centre coordinate from a draw \<open>u\<close>, the canvas extent and the radius.\<close>

definition drawn_radius :: "number \<Rightarrow> number \<Rightarrow> real \<Rightarrow> number" where
  "drawn_radius maxRadius minRadius u = js_add (js_mul (Num u) (js_sub maxRadius minRadius)) minRadius"

definition drawn_center :: "real \<Rightarrow> number \<Rightarrow> real \<Rightarrow> number" where
  "drawn_center extent radius u =
     js_add (js_mul (Num u) (js_sub (Num extent) (js_mul (Num 2) radius))) radius"

subsection \<open>Concrete inputs\<close>

text \<open>A run of \<^verbatim>\<open>Math.random()\<close> in which every draw is one half.\<close>

definition every_draw_half :: "nat \<Rightarrow> real" where
  "every_draw_half k = 1 / 2"

text \<open>A run of \<^verbatim>\<open>Math.random()\<close> in which every draw is 0.\<close>

definition every_draw_zero :: "nat \<Rightarrow> real" where
  "every_draw_zero k = 0"

text \<open>A run of \<^verbatim>\<open>Math.random()\<close> in which every draw is the largest double below 1.\<close>

definition every_draw_largest :: "nat \<Rightarrow> real" where
  "every_draw_largest k = 1 - 1 / 2 ^ 53"

text \<open>A context whose compiler rejects every source and reports an empty info log,
  and whose programs have no attributes.\<close>

definition silent_driver :: "int gl_context" where
  "silent_driver =
     \<lparr> compileStatus = (\<lambda>shaderType source. False),
       infoLog = (\<lambda>shaderType source. Some []),
       attribLocation = (\<lambda>program name. - 1),
       nextHandle = 0,
       trace = [] \<rparr>"

text \<open>A context whose compiler accepts the source \<^verbatim>\<open>void main() {}\<close> only and reports
  a syntax error for any other; its programs have the one attribute
  \<^verbatim>\<open>vertPosition\<close>, at location 0.\<close>

definition strict_driver :: "int gl_context" where
  "strict_driver =
     \<lparr> compileStatus = (\<lambda>shaderType source. source = ''void main() {}''),
       infoLog = (\<lambda>shaderType source.
                    if source = ''void main() {}'' then Some [] else Some ''ERROR: 0:1: syntax error''),
       attribLocation = (\<lambda>program name. if name = ''vertPosition'' then 0 else - 1),
       nextHandle = 0,
       trace = [] \<rparr>"

section \<open>Properties\<close>

subsection \<open>Rounding\<close>

text \<open>Rounding to an integer: within one half, monotone, odd, exact on integers.\<close>

lemma rhe_upper: "of_int (round_half_even x) \<le> x + 1 / 2"
  unfolding round_half_even_def by (auto; linarith)

lemma rhe_lower: "x - 1 / 2 \<le> of_int (round_half_even x)"
  unfolding round_half_even_def by (auto; linarith)

lemma rhe_of_int [simp]: "round_half_even (of_int n) = n"
  by (simp add: round_half_even_def)

lemma rhe_cases:
  "round_half_even x = \<lfloor>x\<rfloor> \<or> round_half_even x = \<lfloor>x\<rfloor> + 1"
  by (simp add: round_half_even_def)

lemma rhe_mono:
  assumes "x \<le> y"
  shows "round_half_even x \<le> round_half_even y"
proof (cases "\<lfloor>x\<rfloor> < \<lfloor>y\<rfloor>")
  case True
  have "round_half_even x \<le> \<lfloor>x\<rfloor> + 1" using rhe_cases [of x] by auto
  moreover have "\<lfloor>y\<rfloor> \<le> round_half_even y" using rhe_cases [of y] by auto
  ultimately show ?thesis using True by linarith
next
  case False
  moreover have "\<lfloor>x\<rfloor> \<le> \<lfloor>y\<rfloor>" using assms by (rule floor_mono)
  ultimately have eq: "\<lfloor>x\<rfloor> = \<lfloor>y\<rfloor>" by linarith
  show ?thesis
    using assms unfolding round_half_even_def eq by (auto; linarith)
qed

lemma rhe_less_half:
  assumes "x < of_int n - 1 / 2"
  shows "round_half_even x \<le> n - 1"
proof -
  have "of_int (round_half_even x) < (of_int n :: real)"
    using rhe_upper [of x] assms by linarith
  then show ?thesis by simp
qed

lemma rhe_minus: "round_half_even (- x) = - round_half_even x"
proof (cases "x = of_int \<lfloor>x\<rfloor>")
  case True
  then obtain n where "x = of_int n" ..
  then show ?thesis by (simp flip: of_int_minus)
next
  case False
  then have fl: "\<lfloor>- x\<rfloor> = - \<lfloor>x\<rfloor> - 1"
    by (simp add: floor_minus ceiling_altdef)
  have "of_int \<lfloor>x\<rfloor> \<le> x" by simp
  then have lt: "of_int \<lfloor>x\<rfloor> < x" using False by linarith
  show ?thesis
    unfolding round_half_even_def fl using lt by (auto; linarith?)
qed

text \<open>The binade of a positive number, and the bounds of the scaled number.\<close>

lemma powr_pow2: "2 powr real_of_int k = (2::real) powi k"
  by (rule powr_real_of_int') simp_all

lemma floor_log2_bounds:
  assumes "0 < x"
  shows "2 powi \<lfloor>log 2 x\<rfloor> \<le> x" and "x < 2 powi (\<lfloor>log 2 x\<rfloor> + 1)"
proof -
  have "2 powr real_of_int \<lfloor>log 2 x\<rfloor> \<le> x \<and> x < 2 powr real_of_int (\<lfloor>log 2 x\<rfloor> + 1)"
    using floor_log_eq_powr_iff [of x 2 "\<lfloor>log 2 x\<rfloor>"] assms by simp
  then show "2 powi \<lfloor>log 2 x\<rfloor> \<le> x" and "x < 2 powi (\<lfloor>log 2 x\<rfloor> + 1)"
    by (simp_all only: powr_pow2)
qed

lemma floor_log2_eq:
  assumes "2 powi k \<le> x" and "x < 2 powi (k + 1)"
  shows "\<lfloor>log 2 x\<rfloor> = k"
proof -
  have "0 < (2::real) powi k" by simp
  then have "0 < x" using assms(1) by linarith
  moreover have "2 powr real_of_int k \<le> x \<and> x < 2 powr real_of_int (k + 1)"
    using assms by (simp only: powr_pow2)
  ultimately show ?thesis
    using floor_log_eq_powr_iff [of x 2 k] by simp
qed

lemma binade_minus [simp]: "binade emin (- x) = binade emin x"
  by (simp add: binade_def)

lemma quantum_minus [simp]: "quantum p emin (- x) = quantum p emin x"
  by (simp add: quantum_def)

lemma quantum_pos [simp]: "0 < quantum p emin x"
  by (simp add: quantum_def)

lemma quantum_nonneg [simp]: "0 \<le> quantum p emin x"
  by (simp add: quantum_def)

lemma rhe_0 [simp]: "round_half_even 0 = 0"
  using rhe_of_int [of 0] by simp

lemma round_to_minus: "round_to p emin (- x) = - round_to p emin x"
  by (simp add: round_to_def rhe_minus)

lemma round_to_0 [simp]: "round_to p emin 0 = 0"
  by (simp add: round_to_def)

lemma binade_ge [simp]: "emin \<le> binade emin x"
  by (simp add: binade_def)

lemma binade_upper:
  assumes "0 < x"
  shows "x < 2 powi (binade emin x + 1)"
proof -
  have "x < 2 powi (\<lfloor>log 2 x\<rfloor> + 1)" using assms by (rule floor_log2_bounds)
  also have "\<dots> \<le> 2 powi (binade emin x + 1)"
    using assms by (intro power_int_increasing) (simp_all add: binade_def)
  finally show ?thesis .
qed

lemma binade_lower:
  assumes "0 < x" and "emin < binade emin x"
  shows "2 powi (binade emin x) \<le> x"
proof -
  have "binade emin x = \<lfloor>log 2 x\<rfloor>" using assms by (simp add: binade_def max_def split: if_splits)
  then show ?thesis using floor_log2_bounds(1) [OF assms(1)] by simp
qed

lemma binade_eq:
  assumes "2 powi k \<le> x" and "x < 2 powi (k + 1)" and "emin \<le> k"
  shows "binade emin x = k"
proof -
  have "0 < (2::real) powi k" by simp
  then have "0 < x" using assms(1) by linarith
  then show ?thesis using floor_log2_eq [OF assms(1,2)] assms(3) by (simp add: binade_def)
qed

lemma binade_subnormal:
  assumes "0 < x" and "x < 2 powi emin"
  shows "binade emin x = emin"
proof -
  have "\<lfloor>log 2 x\<rfloor> < emin"
  proof (rule ccontr)
    assume "\<not> \<lfloor>log 2 x\<rfloor> < emin"
    then have "(2::real) powi emin \<le> 2 powi \<lfloor>log 2 x\<rfloor>"
      by (intro power_int_increasing) simp_all
    then show False using floor_log2_bounds(1) [OF assms(1)] assms(2) by linarith
  qed
  then show ?thesis using assms(1) by (simp add: binade_def)
qed

lemma binade_mono:
  assumes "0 < x" and "x \<le> y"
  shows "binade emin x \<le> binade emin y"
proof -
  have "log 2 x \<le> log 2 y" using assms by simp
  then have "\<lfloor>log 2 x\<rfloor> \<le> \<lfloor>log 2 y\<rfloor>" by (rule floor_mono)
  then show ?thesis using assms by (simp add: binade_def)
qed

lemma pow2_split: "(2::real) powi (e + 1) = 2 powi (e - int p + 1) * 2 ^ p"
proof -
  have "(2::real) powi (e + 1) = 2 powi ((e - int p + 1) + int p)" by simp
  also have "\<dots> = 2 powi (e - int p + 1) * 2 powi (int p)"
    by (subst power_int_add) simp_all
  finally show ?thesis by simp
qed

lemma pow2_split': "0 < p \<Longrightarrow> (2::real) powi e = 2 powi (e - int p + 1) * 2 ^ (p - 1)"
  using pow2_split [of "e - 1" "p - 1"] by (simp add: of_nat_diff algebra_simps)

lemma scaled_upper:
  assumes "0 < x"
  shows "x / quantum p emin x < 2 ^ p"
proof -
  have "x < quantum p emin x * 2 ^ p"
    using binade_upper [OF assms, of emin] pow2_split [of "binade emin x" p]
    by (simp add: quantum_def)
  then show ?thesis by (simp add: pos_divide_less_eq mult.commute)
qed

lemma scaled_lower:
  assumes "0 < x" and "emin < binade emin x" and "0 < p"
  shows "2 ^ (p - 1) \<le> x / quantum p emin x"
proof -
  have "quantum p emin x * 2 ^ (p - 1) \<le> x"
    using binade_lower [OF assms(1,2)] pow2_split' [OF assms(3), of "binade emin x"]
    by (simp add: quantum_def)
  then show ?thesis by (simp add: pos_le_divide_eq mult.commute)
qed

lemma round_to_pos_eq:
  "x \<noteq> 0 \<Longrightarrow> round_to p emin x = of_int (round_half_even (x / quantum p emin x)) * quantum p emin x"
  by (simp add: round_to_def)

lemma rhe_scaled_bounds:
  assumes "0 < x"
  shows "0 \<le> round_half_even (x / quantum p emin x)"
    and "round_half_even (x / quantum p emin x) \<le> 2 ^ p"
    and "emin < binade emin x \<Longrightarrow> 0 < p \<Longrightarrow> 2 ^ (p - 1) \<le> round_half_even (x / quantum p emin x)"
proof -
  let ?y = "x / quantum p emin x"
  have "0 \<le> ?y" using assms by (intro divide_nonneg_pos) simp_all
  then have "round_half_even (of_int 0) \<le> round_half_even ?y" by (intro rhe_mono) simp
  then show "0 \<le> round_half_even ?y" by simp
  have "?y \<le> of_int (2 ^ p)" using scaled_upper [OF assms, of p emin] by simp
  then have "round_half_even ?y \<le> round_half_even (of_int (2 ^ p))" by (rule rhe_mono)
  then show "round_half_even ?y \<le> 2 ^ p" by (simp only: rhe_of_int)
  assume "emin < binade emin x" "0 < p"
  then have "of_int (2 ^ (p - 1)) \<le> ?y" using scaled_lower [OF assms, of emin p] by simp
  then have "round_half_even (of_int (2 ^ (p - 1))) \<le> round_half_even ?y" by (rule rhe_mono)
  then show "2 ^ (p - 1) \<le> round_half_even ?y" by (simp only: rhe_of_int)
qed

text \<open>Rounding keeps the sign and stays within the closed binade; it is monotone on
  the non-negative numbers.\<close>

lemma round_to_nonneg:
  assumes "0 \<le> x"
  shows "0 \<le> round_to p emin x"
proof (cases "x = 0")
  case True
  then show ?thesis by simp
next
  case False
  then have "0 < x" using assms by simp
  then show ?thesis
    using rhe_scaled_bounds(1) [of x p emin] False by (simp add: round_to_def zero_le_mult_iff)
qed

lemma round_to_upper:
  assumes "0 < x"
  shows "round_to p emin x \<le> 2 powi (binade emin x + 1)"
proof -
  have "of_int (round_half_even (x / quantum p emin x)) \<le> (2 ^ p :: real)"
    using rhe_scaled_bounds(2) [OF assms, of p emin] by (metis of_int_le_iff of_int_numeral of_int_power)
  then have "round_to p emin x \<le> 2 ^ p * quantum p emin x"
    using assms by (simp add: round_to_def)
  then show ?thesis
    using pow2_split [of "binade emin x" p] by (simp add: quantum_def mult.commute)
qed

lemma round_to_lower:
  assumes "0 < x" and "emin < binade emin x" and "0 < p"
  shows "2 powi (binade emin x) \<le> round_to p emin x"
proof -
  have "(2 ^ (p - 1) :: real) \<le> of_int (round_half_even (x / quantum p emin x))"
    using rhe_scaled_bounds(3) [OF assms] by (metis of_int_le_iff of_int_numeral of_int_power)
  then have "2 ^ (p - 1) * quantum p emin x \<le> round_to p emin x"
    using assms by (simp add: round_to_def)
  then show ?thesis
    using pow2_split' [OF assms(3), of "binade emin x"] by (simp add: quantum_def mult.commute)
qed

lemma round_to_mono_pos:
  assumes "0 < x" and "x \<le> y" and "0 < p"
  shows "round_to p emin x \<le> round_to p emin y"
proof -
  have ypos: "0 < y" using assms by linarith
  have le: "binade emin x \<le> binade emin y" using assms(1,2) by (rule binade_mono)
  show ?thesis
  proof (cases "binade emin x = binade emin y")
    case True
    then have q: "quantum p emin x = quantum p emin y" by (simp add: quantum_def)
    have "x / quantum p emin y \<le> y / quantum p emin y"
      using assms(2) by (intro divide_right_mono) simp_all
    then have "round_half_even (x / quantum p emin y) \<le> round_half_even (y / quantum p emin y)"
      by (rule rhe_mono)
    then have "of_int (round_half_even (x / quantum p emin y)) * quantum p emin y
                 \<le> of_int (round_half_even (y / quantum p emin y)) * quantum p emin y"
      by (intro mult_right_mono) simp_all
    then show ?thesis using assms(1) ypos by (simp add: round_to_def q)
  next
    case False
    then have lt: "binade emin x + 1 \<le> binade emin y" using le by linarith
    then have "emin < binade emin y" using binade_ge [of emin x] by linarith
    then have "2 powi (binade emin y) \<le> round_to p emin y"
      using ypos assms(3) by (intro round_to_lower)
    moreover have "round_to p emin x \<le> 2 powi (binade emin x + 1)"
      using assms(1) by (rule round_to_upper)
    moreover have "(2::real) powi (binade emin x + 1) \<le> 2 powi (binade emin y)"
      using lt by (intro power_int_increasing) simp_all
    ultimately show ?thesis by linarith
  qed
qed

lemma round_to_mono:
  assumes "0 \<le> x" and "x \<le> y" and "0 < p"
  shows "round_to p emin x \<le> round_to p emin y"
proof (cases "x = 0")
  case True
  then show ?thesis using assms round_to_nonneg [of y p emin] by simp
next
  case False
  then show ?thesis using assms by (intro round_to_mono_pos) simp_all
qed

text \<open>A number \<open>m \<times> 2\<^sup>k\<close> with at most \<open>p\<close> significant bits and an exponent in
  range is not changed by rounding; so rounding is idempotent, and the numbers of a
  format are multiples of its smallest quantum.\<close>

lemma pow2_quot:
  assumes "j \<le> k"
  shows "(2::real) powi k / 2 powi j = of_int (2 ^ nat (k - j))"
proof -
  have "(2::real) powi k / 2 powi j = 2 powi (k - j)" by (simp add: power_int_diff)
  also have "\<dots> = 2 ^ nat (k - j)" using assms by (simp add: power_int_nonneg_exp)
  finally show ?thesis by simp
qed

lemma round_to_integral:
  assumes "x / quantum p emin x = of_int j"
  shows "round_to p emin x = x"
proof (cases "x = 0")
  case True
  then show ?thesis by simp
next
  case False
  have "of_int (round_half_even (x / quantum p emin x)) * quantum p emin x
          = x / quantum p emin x * quantum p emin x"
    unfolding assms by simp
  also have "\<dots> = x"
  proof -
    have "quantum p emin x \<noteq> 0" using quantum_pos [of p emin x] by linarith
    then show ?thesis by simp
  qed
  finally show ?thesis using False by (simp add: round_to_def)
qed

lemma round_to_exact_pos:
  assumes "0 < m" and "m \<le> 2 ^ p" and "emin - int p + 1 \<le> k" and "0 < p"
  shows "round_to p emin (of_int m * 2 powi k) = of_int m * 2 powi k"
proof -
  let ?x = "of_int m * (2::real) powi k"
  let ?e = "binade emin ?x"
  have xpos: "0 < ?x" using assms(1) by simp
  have q: "quantum p emin ?x = 2 powi (?e - int p + 1)" by (simp add: quantum_def)
  show ?thesis
  proof (cases "?e - int p + 1 \<le> k")
    case True
    have "?x / quantum p emin ?x = of_int m * (2 powi k / 2 powi (?e - int p + 1))"
      by (simp add: q)
    also have "\<dots> = of_int m * of_int (2 ^ nat (k - (?e - int p + 1)))"
      by (simp only: pow2_quot [OF True])
    also have "\<dots> = of_int (m * 2 ^ nat (k - (?e - int p + 1)))" by simp
    finally show ?thesis by (rule round_to_integral)
  next
    case False
    then have big: "int p + k \<le> ?e" by linarith
    then have "emin < ?e" using assms(3) by linarith
    then have lo: "2 powi ?e \<le> ?x" using xpos by (intro binade_lower)
    have "?x \<le> 2 ^ p * 2 powi k"
      using assms(2) by (intro mult_right_mono) (simp_all add: of_int_le_numeral_power_cancel_iff)
    also have "\<dots> = 2 powi (int p + k)" by (simp add: power_int_add)
    also have "\<dots> \<le> 2 powi ?e" using big by (intro power_int_increasing) simp_all
    finally have hi: "?x \<le> 2 powi ?e" .
    have xe: "?x = 2 powi ?e" using lo hi by linarith
    have "?x / quantum p emin ?x = 2 powi ?e / 2 powi (?e - int p + 1)"
      using xe by (simp only: q)
    also have "\<dots> = of_int (2 ^ nat (?e - (?e - int p + 1)))"
      using assms(4) by (intro pow2_quot) simp
    finally show ?thesis by (rule round_to_integral)
  qed
qed

lemma round_to_exact:
  assumes "\<bar>m\<bar> \<le> 2 ^ p" and "emin - int p + 1 \<le> k" and "0 < p"
  shows "round_to p emin (of_int m * 2 powi k) = of_int m * 2 powi k"
proof -
  consider "m = 0" | "0 < m" | "m < 0" by linarith
  then show ?thesis
  proof cases
    case 1
    then show ?thesis by simp
  next
    case 2
    then show ?thesis using assms by (intro round_to_exact_pos) simp_all
  next
    case 3
    then have "round_to p emin (of_int (- m) * 2 powi k) = of_int (- m) * 2 powi k"
      using assms by (intro round_to_exact_pos) simp_all
    then have "round_to p emin (- (of_int m * 2 powi k)) = - (of_int m * 2 powi k)"
      by simp
    then show ?thesis by (simp only: round_to_minus)
  qed
qed

lemma round_to_form:
  assumes "0 < x"
  shows "\<exists>n k. round_to p emin x = of_int n * 2 powi k \<and> 0 \<le> n \<and> n \<le> 2 ^ p
           \<and> emin - int p + 1 \<le> k"
proof -
  let ?n = "round_half_even (x / quantum p emin x)"
  have "round_to p emin x = of_int ?n * 2 powi (binade emin x - int p + 1)"
    using assms by (simp add: round_to_def quantum_def)
  moreover have "0 \<le> ?n" "?n \<le> 2 ^ p" using rhe_scaled_bounds(1,2) [OF assms] by simp_all
  moreover have "emin - int p + 1 \<le> binade emin x - int p + 1" by simp
  ultimately show ?thesis by blast
qed

lemma round_to_idem_pos:
  assumes "0 < x" and "0 < p"
  shows "round_to p emin (round_to p emin x) = round_to p emin x"
proof -
  obtain n k where f: "round_to p emin x = of_int n * 2 powi k" "0 \<le> n" "n \<le> 2 ^ p"
    "emin - int p + 1 \<le> k"
    using round_to_form [OF assms(1)] by blast
  have "\<bar>n\<bar> \<le> 2 ^ p" using f(2,3) by simp
  then show ?thesis unfolding f(1) using f(4) assms(2) by (rule round_to_exact)
qed

lemma round_to_idem:
  assumes "0 < p"
  shows "round_to p emin (round_to p emin x) = round_to p emin x"
proof -
  consider "x = 0" | "0 < x" | "x < 0" by linarith
  then show ?thesis
  proof cases
    case 1
    then show ?thesis by simp
  next
    case 2
    then show ?thesis using assms by (rule round_to_idem_pos)
  next
    case 3
    then have "round_to p emin (round_to p emin (- x)) = round_to p emin (- x)"
      using assms by (intro round_to_idem_pos) simp_all
    then show ?thesis by (simp add: round_to_minus)
  qed
qed

lemma representable_round_to [simp]:
  "0 < p \<Longrightarrow> representable p emin (round_to p emin x)"
  by (simp add: representable_def round_to_idem)

lemma representable_0 [simp]: "representable p emin 0"
  by (simp add: representable_def)

lemma representable_form:
  assumes "representable p emin x" and "0 < x"
  shows "\<exists>n k. x = of_int n * 2 powi k \<and> 0 < n \<and> n \<le> 2 ^ p \<and> emin - int p + 1 \<le> k"
proof -
  obtain n k where f: "round_to p emin x = of_int n * 2 powi k" "0 \<le> n" "n \<le> 2 ^ p"
    "emin - int p + 1 \<le> k"
    using round_to_form [OF assms(2)] by blast
  have x: "x = of_int n * 2 powi k" using f(1) assms(1) by (simp add: representable_def)
  have "n \<noteq> 0" using x assms(2) by auto
  then show ?thesis using x f by force
qed

lemma representable_multiple:
  assumes "representable p emin x" and "0 \<le> x"
  shows "\<exists>j. x = of_int j * 2 powi (emin - int p + 1)"
proof (cases "x = 0")
  case True
  then have "x = of_int 0 * 2 powi (emin - int p + 1)" by simp
  then show ?thesis ..
next
  case False
  then have "0 < x" using assms(2) by simp
  then obtain n k where f: "x = of_int n * 2 powi k" "emin - int p + 1 \<le> k"
    using representable_form [OF assms(1)] by blast
  have "(2::real) powi k = 2 powi k / 2 powi (emin - int p + 1) * 2 powi (emin - int p + 1)"
    by simp
  also have "\<dots> = of_int (2 ^ nat (k - (emin - int p + 1))) * 2 powi (emin - int p + 1)"
    by (simp only: pow2_quot [OF f(2)])
  finally have "x = of_int (n * 2 ^ nat (k - (emin - int p + 1))) * 2 powi (emin - int p + 1)"
    using f(1) by simp
  then show ?thesis ..
qed

lemma representable_double:
  assumes "representable p emin x" and "0 \<le> x" and "0 < p"
  shows "representable p emin (2 * x)"
proof (cases "x = 0")
  case True
  then show ?thesis by simp
next
  case False
  then have "0 < x" using assms(2) by simp
  then obtain n k where f: "x = of_int n * 2 powi k" "0 < n" "n \<le> 2 ^ p"
    "emin - int p + 1 \<le> k"
    using representable_form [OF assms(1)] by blast
  have "2 * x = of_int n * 2 powi (k + 1)" using f(1) by (simp add: power_int_add)
  moreover have "round_to p emin (of_int n * 2 powi (k + 1)) = of_int n * 2 powi (k + 1)"
    using f(2,3,4) assms(3) by (intro round_to_exact) simp_all
  ultimately show ?thesis by (simp add: representable_def)
qed

text \<open>The largest number of a format below 1 is \<open>1 - 2\<^sup>-\<^sup>p\<close>.\<close>

lemma representable_below_one:
  assumes "representable p emin u" and "0 \<le> u" and "u < 1" and "emin \<le> - 1" and "0 < p"
  shows "u \<le> 1 - 1 / 2 ^ p"
proof (cases "u = 0")
  case True
  then show ?thesis by simp
next
  case False
  then have upos: "0 < u" using assms(2) by simp
  have "(2::real) ^ 1 \<le> 2 ^ p" using assms(5) by (intro power_increasing) simp_all
  then have half: "(1::real) / 2 ^ p \<le> 1 / 2"
    by (intro divide_left_mono) simp_all
  have fl: "\<lfloor>log 2 u\<rfloor> < 0"
  proof -
    have "log 2 u < 0" using upos assms(3) by simp
    then show ?thesis by linarith
  qed
  have "binade emin u = max emin \<lfloor>log 2 u\<rfloor>" using upos by (simp add: binade_def)
  then have e: "binade emin u \<le> - 1" using fl assms(4) by linarith
  show ?thesis
  proof (cases "binade emin u = - 1")
    case True
    then have q: "quantum p emin u = 2 powi (- int p)" by (simp add: quantum_def)
    have q': "(2::real) powi (- int p) = 1 / 2 ^ p" by (simp add: power_int_minus_divide)
    define n where "n = round_half_even (u / quantum p emin u)"
    have u: "u = of_int n / 2 ^ p"
      using assms(1) False by (simp add: representable_def round_to_def q q' n_def)
    have "u * 2 ^ p < 1 * 2 ^ p" using assms(3) by (intro mult_strict_right_mono) simp_all
    moreover have "u * 2 ^ p = of_int n" unfolding u by simp
    ultimately have "of_int n < (2 ^ p :: real)" by simp
    then have "(of_int n :: real) < of_int (2 ^ p)" by simp
    then have "n < 2 ^ p" by (simp only: of_int_less_iff)
    then have "n \<le> 2 ^ p - 1" by simp
    then have "(of_int n :: real) \<le> of_int (2 ^ p - 1)" by (simp only: of_int_le_iff)
    then have "of_int n \<le> (2 ^ p - 1 :: real)" by simp
    then have "of_int n / 2 ^ p \<le> ((2 ^ p - 1) / 2 ^ p :: real)"
      by (intro divide_right_mono) simp_all
    also have "\<dots> = 1 - 1 / 2 ^ p" by (simp add: field_simps)
    finally show ?thesis unfolding u .
  next
    case False
    then have "binade emin u + 1 \<le> - 1" using e by linarith
    then have "(2::real) powi (binade emin u + 1) \<le> 2 powi (- 1)"
      by (intro power_int_increasing) simp_all
    then have "u < 1 / 2" using binade_upper [OF upos, of emin] by (simp add: power_int_minus_divide)
    then show ?thesis using half by linarith
  qed
qed

text \<open>
  For two numbers \<open>b \<le> a\<close> of a format and a factor \<open>u\<close> below 1, the rounded
  product of \<open>u\<close> and the rounded difference does not exceed the exact difference:
  where the difference was rounded up, the product falls at least one quantum lower.
\<close>

lemma round_to_scaled_difference:
  assumes a: "representable p emin a" and b: "representable p emin b"
    and "0 \<le> b" and "b \<le> a" and "0 \<le> u" and "u \<le> 1 - 1 / 2 ^ p" and p: "0 < p"
  shows "round_to p emin (u * round_to p emin (a - b)) \<le> a - b"
proof -
  let ?z = "a - b"
  let ?d = "round_to p emin ?z"
  have z0: "0 \<le> ?z" using assms(4) by simp
  have d0: "0 \<le> ?d" using z0 by (rule round_to_nonneg)
  have u1: "u \<le> 1" using assms(6) by (smt (verit) divide_nonneg_nonneg zero_le_power)
  have w0: "0 \<le> u * ?d" using assms(5) d0 by simp
  have wd: "u * ?d \<le> ?d" using mult_right_mono [OF u1 d0] by simp
  show ?thesis
  proof (cases "?d \<le> ?z")
    case True
    have "round_to p emin (u * ?d) \<le> round_to p emin ?d"
      using w0 wd p by (rule round_to_mono)
    then show ?thesis using True p by (simp add: round_to_idem)
  next
    case False
    then have up: "?z < ?d" by simp
    then have zpos: "0 < ?z" using z0 by (cases "?z = 0") simp_all
    let ?e = "binade emin ?z"
    let ?q = "quantum p emin ?z"
    let ?n = "round_half_even (?z / ?q)"
    have qpos: "0 < ?q" by simp
    have d: "?d = of_int ?n * ?q" using zpos by (simp add: round_to_def)
    have nz: "?z / ?q < of_int ?n"
      using up unfolding d by (simp add: pos_divide_less_eq)
    have zn: "(of_int ?n - 1 / 2) * ?q \<le> ?z"
    proof -
      have "(of_int ?n - 1 / 2) \<le> ?z / ?q" using rhe_upper [of "?z / ?q"] by linarith
      then have "(of_int ?n - 1 / 2) * ?q \<le> ?z / ?q * ?q"
        by (intro mult_right_mono) simp_all
      moreover have "?q \<noteq> 0" using qpos by linarith
      ultimately show ?thesis by simp
    qed
    show ?thesis
    proof (cases "emin < ?e")
      case True
      have "2 ^ (p - 1) \<le> ?z / ?q" using zpos True p by (rule scaled_lower)
      then have nbig: "2 ^ (p - 1) < (of_int ?n :: real)" using nz by linarith
      have "2 ^ p = (2::real) * 2 ^ (p - 1)" using p by (cases p) simp_all
      then have frac: "1 / 2 < of_int ?n / (2 ^ p :: real)"
        using nbig by (simp add: field_simps)
      have npos: "0 < (of_int ?n :: real)" using nbig by (smt (verit) zero_le_power)
      have "u * ?d \<le> (1 - 1 / 2 ^ p) * ?d" using assms(6) d0 by (rule mult_right_mono)
      also have "\<dots> = (of_int ?n - of_int ?n / 2 ^ p) * ?q" by (simp add: d algebra_simps)
      also have "\<dots> < (of_int ?n - 1 / 2) * ?q"
        using frac qpos by (intro mult_strict_right_mono) simp_all
      finally have w: "u * ?d < (of_int ?n - 1 / 2) * ?q" .
      show ?thesis
      proof (cases "u * ?d = 0")
        case True
        have "round_to p emin (u * ?d) = 0" by (simp only: True round_to_0)
        then show ?thesis using z0 by linarith
      next
        case False
        then have wpos: "0 < u * ?d" using w0 by (metis order_less_le)
        have wz: "u * ?d \<le> ?z" using w zn by linarith
        have ble: "binade emin (u * ?d) \<le> ?e" using wpos wz by (rule binade_mono)
        show ?thesis
        proof (cases "binade emin (u * ?d) = ?e")
          case True
          then have q: "quantum p emin (u * ?d) = ?q" by (simp add: quantum_def)
          have "u * ?d / ?q < of_int ?n - 1 / 2"
            using w qpos by (simp add: pos_divide_less_eq)
          then have "round_half_even (u * ?d / ?q) \<le> ?n - 1" by (rule rhe_less_half)
          then have "(of_int (round_half_even (u * ?d / ?q)) :: real) \<le> of_int (?n - 1)"
            by (simp only: of_int_le_iff)
          then have "(of_int (round_half_even (u * ?d / ?q)) :: real) \<le> of_int ?n - 1"
            by simp
          then have "of_int (round_half_even (u * ?d / ?q)) * ?q \<le> (of_int ?n - 1) * ?q"
            by (intro mult_right_mono) simp_all
          also have "\<dots> \<le> (of_int ?n - 1 / 2) * ?q" by (intro mult_right_mono) simp_all
          also have "\<dots> \<le> ?z" by (rule zn)
          finally have "of_int (round_half_even (u * ?d / ?q)) * ?q \<le> ?z" .
          moreover have "round_to p emin (u * ?d) = of_int (round_half_even (u * ?d / ?q)) * ?q"
            using round_to_pos_eq [OF \<open>u * ?d \<noteq> 0\<close>, of p emin] by (simp only: q)
          ultimately show ?thesis by simp
        next
          case False
          then have lt: "binade emin (u * ?d) + 1 \<le> ?e" using ble by linarith
          have "round_to p emin (u * ?d) \<le> 2 powi (binade emin (u * ?d) + 1)"
            using wpos by (rule round_to_upper)
          also have "\<dots> \<le> 2 powi ?e" using lt by (intro power_int_increasing) simp_all
          also have "\<dots> \<le> ?z" using zpos True by (rule binade_lower)
          finally show ?thesis .
        qed
      qed
    next
      case False
      then have e: "?e = emin" using binade_ge [of emin ?z] by linarith
      then have q: "?q = 2 powi (emin - int p + 1)" by (simp add: quantum_def)
      obtain ja where ja: "a = of_int ja * 2 powi (emin - int p + 1)"
        using representable_multiple [OF a] assms(3,4) by auto
      obtain jb where jb: "b = of_int jb * 2 powi (emin - int p + 1)"
        using representable_multiple [OF b] assms(3) by auto
      have ab: "a - b = of_int (ja - jb) * 2 powi (emin - int p + 1)"
        by (subst ja, subst jb) (simp add: algebra_simps)
      have "?z = of_int (ja - jb) * ?q" by (rule trans [OF ab]) (simp only: q)
      moreover have "?q \<noteq> 0" using qpos by linarith
      ultimately have "?z / ?q = of_int (ja - jb)" by (simp add: field_simps)
      then have "?d = ?z" by (rule round_to_integral)
      then show ?thesis using up by simp
    qed
  qed
qed

subsection \<open>Doubles and floats\<close>

text \<open>What \<open>to_double\<close> and \<open>to_float32\<close> return, and which numbers they leave alone.\<close>

lemma double_limit_pos [simp]: "0 < double_limit"
  by (simp add: double_limit_def)

lemma float32_limit_pos [simp]: "0 < float32_limit"
  by (simp add: float32_limit_def)

lemma to_double_eq:
  "to_double x = Num r \<longleftrightarrow> r = round_to 53 (- 1022) x \<and> \<bar>r\<bar> < double_limit"
  by (auto simp: to_double_def Let_def)

lemma to_float32_eq:
  "to_float32 x = Num r \<longleftrightarrow> r = round_to 24 (- 126) x \<and> \<bar>r\<bar> < float32_limit"
  by (auto simp: to_float32_def Let_def)

lemma is_double_iff: "is_double x \<longleftrightarrow> representable 53 (- 1022) x \<and> \<bar>x\<bar> < double_limit"
  by (auto simp: is_double_def to_double_eq representable_def)

lemma is_float32_iff: "is_float32 x \<longleftrightarrow> representable 24 (- 126) x \<and> \<bar>x\<bar> < float32_limit"
  by (auto simp: is_float32_def to_float32_eq representable_def)

lemma is_double_0 [simp]: "is_double 0"
  by (simp add: is_double_iff)

lemma is_float32_0 [simp]: "is_float32 0"
  by (simp add: is_float32_iff)

lemma to_double_is_double: "to_double x = Num r \<Longrightarrow> is_double r"
  by (auto simp: to_double_eq is_double_iff)

lemma to_float32_is_float32: "to_float32 x = Num r \<Longrightarrow> is_float32 r"
  by (auto simp: to_float32_eq is_float32_iff)

text \<open>Rounding a non-negative number stays below every greater number of the format
  and above every smaller one.\<close>

lemma to_double_bounded:
  assumes "0 \<le> x" and "x \<le> B" and "is_double B"
  shows "\<exists>r. to_double x = Num r \<and> 0 \<le> r \<and> r \<le> B \<and> is_double r"
proof -
  let ?r = "round_to 53 (- 1022) x"
  have B: "round_to 53 (- 1022) B = B" "\<bar>B\<bar> < double_limit"
    using assms(3) by (simp_all add: is_double_iff representable_def)
  have r0: "0 \<le> ?r" using assms(1) by (rule round_to_nonneg)
  have "?r \<le> round_to 53 (- 1022) B" using assms(1,2) by (intro round_to_mono) simp_all
  then have rB: "?r \<le> B" using B(1) by simp
  then have "\<bar>?r\<bar> < double_limit" using r0 B(2) by linarith
  then have "to_double x = Num ?r" by (simp add: to_double_eq)
  then show ?thesis using r0 rB to_double_is_double by blast
qed

lemma to_double_at_least:
  assumes "to_double x = Num r" and "is_double A" and "0 \<le> A" and "A \<le> x"
  shows "A \<le> r"
proof -
  have "round_to 53 (- 1022) A \<le> round_to 53 (- 1022) x"
    using assms(3,4) by (intro round_to_mono) simp_all
  moreover have "round_to 53 (- 1022) A = A"
    using assms(2) by (simp add: is_double_iff representable_def)
  moreover have "r = round_to 53 (- 1022) x" using assms(1) by (simp add: to_double_eq)
  ultimately show ?thesis by simp
qed

lemma to_float32_bounded:
  assumes "0 \<le> x" and "x \<le> B" and "is_float32 B"
  shows "\<exists>r. to_float32 x = Num r \<and> 0 \<le> r \<and> r \<le> B \<and> is_float32 r"
proof -
  let ?r = "round_to 24 (- 126) x"
  have B: "round_to 24 (- 126) B = B" "\<bar>B\<bar> < float32_limit"
    using assms(3) by (simp_all add: is_float32_iff representable_def)
  have r0: "0 \<le> ?r" using assms(1) by (rule round_to_nonneg)
  have "?r \<le> round_to 24 (- 126) B" using assms(1,2) by (intro round_to_mono) simp_all
  then have rB: "?r \<le> B" using B(1) by simp
  then have "\<bar>?r\<bar> < float32_limit" using r0 B(2) by linarith
  then have "to_float32 x = Num ?r" by (simp add: to_float32_eq)
  then show ?thesis using r0 rB to_float32_is_float32 by blast
qed

lemma to_float32_at_least:
  assumes "to_float32 x = Num r" and "is_float32 A" and "0 \<le> A" and "A \<le> x"
  shows "A \<le> r"
proof -
  have "round_to 24 (- 126) A \<le> round_to 24 (- 126) x"
    using assms(3,4) by (intro round_to_mono) simp_all
  moreover have "round_to 24 (- 126) A = A"
    using assms(2) by (simp add: is_float32_iff representable_def)
  moreover have "r = round_to 24 (- 126) x" using assms(1) by (simp add: to_float32_eq)
  ultimately show ?thesis by simp
qed

lemma to_float32_mono:
  assumes "0 \<le> x" and "x \<le> y" and "to_float32 x = Num a" and "to_float32 y = Num b"
  shows "a \<le> b"
proof -
  have "round_to 24 (- 126) x \<le> round_to 24 (- 126) y"
    using assms(1,2) by (intro round_to_mono) simp_all
  moreover have "a = round_to 24 (- 126) x" "b = round_to 24 (- 126) y"
    using assms(3,4) by (simp_all add: to_float32_eq)
  ultimately show ?thesis by simp
qed

text \<open>Numbers \<open>m \<times> 2\<^sup>k\<close> with few enough bits are doubles, or floats; among them the
  integers and half-integers of moderate size.\<close>

lemma dyadic_bound:
  assumes "\<bar>m\<bar> \<le> 2 ^ p" and "k \<le> K"
  shows "\<bar>of_int m * (2::real) powi k\<bar> \<le> 2 powi (int p + K)"
proof -
  have "\<bar>of_int m * (2::real) powi k\<bar> = \<bar>of_int m\<bar> * 2 powi k" by (simp add: abs_mult)
  also have "\<dots> \<le> 2 ^ p * 2 powi k"
  proof (intro mult_right_mono)
    have "(of_int \<bar>m\<bar> :: real) \<le> of_int (2 ^ p)" using assms(1) by (simp only: of_int_le_iff)
    then show "\<bar>of_int m :: real\<bar> \<le> 2 ^ p" by simp
  qed simp
  also have "\<dots> \<le> 2 ^ p * 2 powi K"
    using assms(2) by (intro mult_left_mono power_int_increasing) simp_all
  also have "\<dots> = 2 powi (int p + K)" by (simp add: power_int_add)
  finally show ?thesis .
qed

lemma is_double_dyadic:
  assumes "\<bar>m\<bar> \<le> 2 ^ 53" and "- 1074 \<le> k" and "k \<le> 970"
  shows "is_double (of_int m * 2 powi k)"
proof -
  have "round_to 53 (- 1022) (of_int m * 2 powi k) = of_int m * 2 powi k"
    using assms(1,2) by (intro round_to_exact) simp_all
  then have rep: "representable 53 (- 1022) (of_int m * 2 powi k)"
    by (simp only: representable_def)
  have "\<bar>of_int m * (2::real) powi k\<bar> \<le> 2 powi (int 53 + 970)"
    using assms(1,3) by (rule dyadic_bound)
  also have "\<dots> < 2 powi 1024" by (intro power_int_strict_increasing) simp_all
  also have "\<dots> = double_limit" by (simp only: double_limit_def power_int_numeral)
  finally show ?thesis using rep by (simp only: is_double_iff)
qed

lemma is_float32_dyadic:
  assumes "\<bar>m\<bar> \<le> 2 ^ 24" and "- 149 \<le> k" and "k \<le> 103"
  shows "is_float32 (of_int m * 2 powi k)"
proof -
  have "round_to 24 (- 126) (of_int m * 2 powi k) = of_int m * 2 powi k"
    using assms(1,2) by (intro round_to_exact) simp_all
  then have rep: "representable 24 (- 126) (of_int m * 2 powi k)"
    by (simp only: representable_def)
  have "\<bar>of_int m * (2::real) powi k\<bar> \<le> 2 powi (int 24 + 103)"
    using assms(1,3) by (rule dyadic_bound)
  also have "\<dots> < 2 powi 128" by (intro power_int_strict_increasing) simp_all
  also have "\<dots> = float32_limit" by (simp only: float32_limit_def power_int_numeral)
  finally show ?thesis using rep by (simp only: is_float32_iff)
qed

lemma half_integer_dyadic:
  fixes x :: real
  assumes "2 * x \<in> \<int>" and "\<bar>x\<bar> \<le> 2 ^ n"
  obtains m where "x = of_int m * 2 powi (- 1)" and "\<bar>m\<bar> \<le> 2 ^ Suc n"
proof -
  from assms(1) obtain m where m: "2 * x = of_int m" by (auto elim: Ints_cases)
  have "x = (2 * x) / 2" by simp
  then have "x = of_int m / 2" by (simp only: m)
  then have x: "x = of_int m * 2 powi (- 1)" by (simp add: power_int_minus_divide)
  have "\<bar>2 * x\<bar> \<le> 2 * 2 ^ n" using assms(2) by (simp add: abs_mult)
  then have "\<bar>of_int m :: real\<bar> \<le> 2 * 2 ^ n" by (simp only: m)
  then have "(of_int \<bar>m\<bar> :: real) \<le> of_int (2 ^ Suc n)" by simp
  then have "\<bar>m\<bar> \<le> 2 ^ Suc n" by (simp only: of_int_le_iff)
  then show ?thesis using x that by blast
qed

lemma is_double_half_integer:
  assumes "2 * x \<in> \<int>" and "\<bar>x\<bar> \<le> 2 ^ 52"
  shows "is_double x"
proof -
  obtain m where x: "x = of_int m * 2 powi (- 1)" and m: "\<bar>m\<bar> \<le> 2 ^ Suc 52"
    using assms by (rule half_integer_dyadic)
  show ?thesis unfolding x using m by (intro is_double_dyadic) simp_all
qed

lemma is_float32_half_integer:
  assumes "2 * x \<in> \<int>" and "\<bar>x\<bar> \<le> 2 ^ 23"
  shows "is_float32 x"
proof -
  obtain m where x: "x = of_int m * 2 powi (- 1)" and m: "\<bar>m\<bar> \<le> 2 ^ Suc 23"
    using assms by (rule half_integer_dyadic)
  show ?thesis unfolding x using m by (intro is_float32_dyadic) simp_all
qed

lemma to_double_half_integer:
  "2 * x \<in> \<int> \<Longrightarrow> \<bar>x\<bar> \<le> 2 ^ 52 \<Longrightarrow> to_double x = Num x"
  using is_double_half_integer by (simp add: is_double_def)

lemma to_float32_half_integer:
  "2 * x \<in> \<int> \<Longrightarrow> \<bar>x\<bar> \<le> 2 ^ 23 \<Longrightarrow> to_float32 x = Num x"
  using is_float32_half_integer by (simp add: is_float32_def)

text \<open>Rounding a number whose binade is known.\<close>

lemma round_to_eval:
  assumes "2 powi e \<le> \<bar>x\<bar>" and "\<bar>x\<bar> < 2 powi (e + 1)" and "emin \<le> e"
  shows "round_to p emin x
           = of_int (round_half_even (x / 2 powi (e - int p + 1))) * 2 powi (e - int p + 1)"
proof -
  have "binade emin \<bar>x\<bar> = e" using assms by (rule binade_eq)
  then have e: "binade emin x = e" by (simp add: binade_def)
  have "0 < (2::real) powi e" by simp
  then have "0 < \<bar>x\<bar>" using assms(1) by linarith
  then have "x \<noteq> 0" by simp
  then show ?thesis by (simp add: round_to_def quantum_def e)
qed

text \<open>Whole numbers up to \<open>2\<^sup>5\<^sup>3\<close>, one half, and the powers of two that bound the
  radii below are doubles, the last two also floats.\<close>

lemma to_double_of_int:
  assumes "\<bar>n\<bar> \<le> 2 ^ 53"
  shows "to_double (of_int n) = Num (of_int n)"
proof -
  have "is_double (of_int n * 2 powi 0)" using assms by (intro is_double_dyadic) simp_all
  then show ?thesis by (simp add: is_double_def)
qed

lemma is_double_half [simp]: "is_double (1 / 2)"
  by (rule is_double_half_integer) simp_all

lemma is_double_pow127: "is_double (2 ^ 127)"
  using is_double_dyadic [of 1 127] by simp

lemma is_float32_pow127: "is_float32 (2 ^ 127)"
proof -
  have "is_float32 (of_int (2 ^ 24) * 2 powi 103)"
    by (rule is_float32_dyadic) simp_all
  moreover have "(of_int (2 ^ 24) * 2 powi 103 :: real) = 2 ^ 127"
    by simp
  ultimately show ?thesis by simp
qed

lemma is_double_inv126: "is_double (1 / 2 ^ 126)"
  using is_double_dyadic [of 1 "- 126"] by (simp add: power_int_minus divide_simps)

lemma is_float32_inv126: "is_float32 (1 / 2 ^ 126)"
  using is_float32_dyadic [of 1 "- 126"] by (simp add: power_int_minus divide_simps)

text \<open>Rounding to a double is monotone and odd.\<close>

lemma is_double_D:
  assumes "is_double x"
  shows "representable 53 (- 1022) x" and "\<bar>x\<bar> < double_limit" and "to_double x = Num x"
proof -
  show "to_double x = Num x" using assms by (simp add: is_double_def)
  show "representable 53 (- 1022) x" "\<bar>x\<bar> < double_limit"
    using assms by (simp_all add: is_double_iff)
qed

lemma to_double_mono:
  assumes "0 \<le> x" and "x \<le> y" and "to_double x = Num a" and "to_double y = Num b"
  shows "a \<le> b"
proof -
  have "round_to 53 (- 1022) x \<le> round_to 53 (- 1022) y"
    using assms(1,2) by (intro round_to_mono) simp_all
  moreover have "a = round_to 53 (- 1022) x" "b = round_to 53 (- 1022) y"
    using assms(3,4) by (simp_all add: to_double_eq)
  ultimately show ?thesis by simp
qed

lemma to_double_uminus: "to_double x = Num r \<Longrightarrow> to_double (- x) = Num (- r)"
  by (auto simp: to_double_eq round_to_minus)

text \<open>
  A draw below 1 is at most \<open>1 - 2\<^sup>-\<^sup>5\<^sup>3\<close>. So the product of a draw and a rounded
  difference \<open>a - b\<close> of doubles, rounded, does not exceed the exact difference.
\<close>

lemma double_below_one:
  assumes "is_double u" and "0 \<le> u" and "u < 1"
  shows "u \<le> 1 - 1 / 2 ^ 53"
  using is_double_D(1) [OF assms(1)] assms(2,3) by (rule representable_below_one) simp_all

lemma to_double_scaled_difference:
  assumes a: "is_double a" and b: "is_double b" and "0 \<le> b" and "b \<le> a"
    and u: "is_double u" "0 \<le> u" "u < 1"
  shows "\<exists>d t. to_double (a - b) = Num d \<and> to_double (u * d) = Num t
           \<and> 0 \<le> t \<and> t \<le> a - b \<and> is_double t"
proof -
  have "0 \<le> a - b" "a - b \<le> a" using assms(3,4) by simp_all
  then obtain d where d: "to_double (a - b) = Num d" "0 \<le> d" "d \<le> a" "is_double d"
    using to_double_bounded [OF _ _ a] by blast
  have "u * d \<le> 1 * d" using u(3) d(2) by (intro mult_right_mono) simp_all
  then have ud: "0 \<le> u * d" "u * d \<le> d" using u(2) d(2) by simp_all
  then obtain t where t: "to_double (u * d) = Num t" "0 \<le> t" "is_double t"
    using to_double_bounded [OF _ _ d(4)] by blast
  have d': "d = round_to 53 (- 1022) (a - b)" using d(1) by (simp add: to_double_eq)
  have "round_to 53 (- 1022) (u * round_to 53 (- 1022) (a - b)) \<le> a - b"
    using is_double_D(1) [OF a] is_double_D(1) [OF b] assms(3,4) u(2) double_below_one [OF u]
    by (rule round_to_scaled_difference) simp
  moreover have "t = round_to 53 (- 1022) (u * d)" using t(1) by (simp add: to_double_eq)
  ultimately have "t \<le> a - b" unfolding d' by simp
  then show ?thesis using d(1) t by blast
qed

subsection \<open>createAttribute\<close>

text \<open>The descriptor in full, for given and for omitted optional arguments: both
  products are rounded to doubles.\<close>

lemma createAttribute_fields:
  "createAttribute name numElements numVertex type offset_opt typeSize_opt normalized_opt
     = \<lparr> attr_name = name,
         attr_size = numElements,
         attr_stride = to_double (numVertex * (case typeSize_opt of None \<Rightarrow> 4 | Some v \<Rightarrow> v)),
         attr_offset = to_double ((case offset_opt of None \<Rightarrow> 0 | Some v \<Rightarrow> v)
                                   * (case typeSize_opt of None \<Rightarrow> 4 | Some v \<Rightarrow> v)),
         attr_type = type,
         attr_normalized = (case normalized_opt of None \<Rightarrow> False | Some v \<Rightarrow> v) \<rparr>"
  by (cases typeSize_opt) (simp_all add: createAttribute_def BYTES_PER_ELEMENT_def Let_def)

text \<open>For integers that are not negative and whose products do not exceed \<open>2\<^sup>5\<^sup>3\<close>,
  both products are exact.\<close>

lemma createAttribute_exact:
  assumes "offset = (case offset_opt of None \<Rightarrow> 0 | Some v \<Rightarrow> v)"
    and "typeSize = (case typeSize_opt of None \<Rightarrow> 4 | Some v \<Rightarrow> v)"
    and "0 \<le> offset" and "0 \<le> typeSize" and "0 \<le> numVertex"
    and "offset * typeSize \<le> 2 ^ 53" and "numVertex * typeSize \<le> 2 ^ 53"
  shows "createAttribute name numElements (of_int numVertex) type
           (map_option of_int offset_opt) (map_option of_int typeSize_opt) normalized_opt
         = \<lparr> attr_name = name,
             attr_size = numElements,
             attr_stride = Num (of_int (numVertex * typeSize)),
             attr_offset = Num (of_int (offset * typeSize)),
             attr_type = type,
             attr_normalized = (case normalized_opt of None \<Rightarrow> False | Some v \<Rightarrow> v) \<rparr>"
proof -
  have ts: "(case map_option of_int typeSize_opt of None \<Rightarrow> 4 | Some v \<Rightarrow> v) = (of_int typeSize :: real)"
    unfolding assms(2) by (cases typeSize_opt) simp_all
  have off: "(case map_option of_int offset_opt of None \<Rightarrow> 0 | Some v \<Rightarrow> v) = (of_int offset :: real)"
    unfolding assms(1) by (cases offset_opt) simp_all
  have "\<bar>offset * typeSize\<bar> \<le> 2 ^ 53" using assms(3,4,6) by (simp add: abs_mult)
  then have o: "to_double (of_int offset * of_int typeSize) = Num (of_int (offset * typeSize))"
    using to_double_of_int [of "offset * typeSize"] by simp
  have "\<bar>numVertex * typeSize\<bar> \<le> 2 ^ 53" using assms(4,5,7) by (simp add: abs_mult)
  then have s: "to_double (of_int numVertex * of_int typeSize) = Num (of_int (numVertex * typeSize))"
    using to_double_of_int [of "numVertex * typeSize"] by simp
  show ?thesis
    unfolding createAttribute_fields ts off o s ..
qed

text \<open>
  C7, as stated, gives \<open>offsetBytes = offset \<times> typeSize\<close> and
  \<open>strideBytes = numVertex \<times> typeSize\<close> exactly for all non-negative integers. The
  products are products of doubles: with \<open>offset = 9007199254740991\<close> and
  \<open>typeSize = 3\<close> the offset of the descriptor is 27021597764222972, and the exact
  product is 27021597764222973.
\<close>

theorem createAttribute_product_rounded:
  "attr_offset (createAttribute ''big'' 1 9007199254740991 FLOAT (Some 9007199254740991) (Some 3) None)
     = Num 27021597764222972
   \<and> (9007199254740991 :: real) * 3 = 27021597764222973"
  using round_to_eval [of 54 27021597764222973 "- 1022" 53]
  by (simp add: createAttribute_fields to_double_eq double_limit_def round_half_even_def)

text \<open>
  C7, amended. Let \<open>offset\<close> be the offset argument, or 0 when it is omitted, and
  \<open>typeSize\<close> the component size argument, or 4 when it is omitted. For all integers
  \<open>offset\<close>, \<open>typeSize\<close> and \<open>numVertex\<close> that are not negative and have
  \<open>offset \<times> typeSize \<le> 2\<^sup>5\<^sup>3\<close> and \<open>numVertex \<times> typeSize \<le> 2\<^sup>5\<^sup>3\<close>, the descriptor
  built by \<^verbatim>\<open>createAttribute\<close> has exactly \<open>offset = offset \<times> typeSize\<close> and
  \<open>stride = numVertex \<times> typeSize\<close>; name, size and type are the arguments unchanged and
  the normalisation flag is the argument, or false when it is omitted. The function is
  total and takes and returns no context: it has no failure path and does no I/O.
\<close>

theorem createAttribute_offset_stride:
  assumes "offset = (case offset_opt of None \<Rightarrow> 0 | Some v \<Rightarrow> v)"
    and "typeSize = (case typeSize_opt of None \<Rightarrow> 4 | Some v \<Rightarrow> v)"
    and "0 \<le> offset" and "0 \<le> typeSize" and "0 \<le> numVertex"
    and "offset * typeSize \<le> 2 ^ 53" and "numVertex * typeSize \<le> 2 ^ 53"
  shows "createAttribute name numElements (of_int numVertex) type
           (map_option of_int offset_opt) (map_option of_int typeSize_opt) normalized_opt
         = \<lparr> attr_name = name,
             attr_size = numElements,
             attr_stride = Num (of_int (numVertex * typeSize)),
             attr_offset = Num (of_int (offset * typeSize)),
             attr_type = type,
             attr_normalized = (case normalized_opt of None \<Rightarrow> False | Some v \<Rightarrow> v) \<rparr>"
  using assms by (rule createAttribute_exact)

text \<open>
  The amended C7 at \<^verbatim>\<open>createAttribute("vertColor", 3, 5, "float", 2)\<close>, a call of
  app.js with the component size omitted: offset 8, stride 20.
\<close>

theorem createAttribute_offset_stride_witness:
  "createAttribute ''vertColor'' 3 5 ''float'' (Some 2) None None
     = \<lparr> attr_name = ''vertColor'', attr_size = 3, attr_stride = Num 20, attr_offset = Num 8,
         attr_type = ''float'', attr_normalized = False \<rparr>"
  using createAttribute_offset_stride [of 2 "Some 2" 4 None 5 "''vertColor''" 3 "''float''" None]
  by simp

text \<open>
  C8, as stated: every descriptor that \<^verbatim>\<open>createAttribute\<close> produces satisfies the
  data-model invariant. It does not: the builder checks nothing. Three components at
  offset 2 of a two-component vertex give offset 8 and stride 8, so the attribute ends
  at byte 20, outside the vertex; five components are accepted as they are; and two
  components at offset 6678695118308106 of a vertex of 6678695118308108 components of
  size 3 fit the vertex, but the offset is rounded up to 20036085354924320 and, with
  the stride 20036085354924324, leaves four bytes for six.
\<close>

theorem createAttribute_invariant_broken:
  "\<not> descriptor_invariant 4 (createAttribute ''vertColor'' 3 2 FLOAT (Some 2) None None)
   \<and> \<not> descriptor_invariant 4 (createAttribute ''vertPosition'' 5 5 FLOAT None None None)
   \<and> \<not> descriptor_invariant 3
         (createAttribute ''wide'' 2 6678695118308108 FLOAT (Some 6678695118308106) (Some 3) None)"
proof -
  have a: "to_double 20036085354924318 = Num 20036085354924320"
    using round_to_eval [of 54 20036085354924318 "- 1022" 53]
    by (simp add: to_double_eq double_limit_def round_half_even_def)
  have b: "to_double 20036085354924324 = Num 20036085354924324"
    using round_to_eval [of 54 20036085354924324 "- 1022" 53]
    by (simp add: to_double_eq double_limit_def round_half_even_def)
  show ?thesis
    by (simp add: descriptor_invariant_def createAttribute_fields to_double_half_integer a b)
qed

text \<open>
  C8, amended. Let \<open>offset\<close> be the offset argument, or 0 when it is omitted, and
  \<open>typeSize\<close> the component size argument, or 4 when it is omitted, both integers that
  are not negative, and \<open>numVertex\<close> an integer. When the component count is 1, 2, 3
  or 4, the attribute fits the vertex counted in components
  (\<open>offset + numElements \<le> numVertex\<close>) and \<open>numVertex \<times> typeSize \<le> 2\<^sup>5\<^sup>3\<close>, the
  descriptor satisfies the invariant, with the component size as element size: between
  one and four components, and
  \<open>offsetBytes + componentCount \<times> elementSize \<le> strideBytes\<close>.
\<close>

theorem createAttribute_invariant:
  assumes "offset = (case offset_opt of None \<Rightarrow> 0 | Some v \<Rightarrow> v)"
    and "typeSize = (case typeSize_opt of None \<Rightarrow> 4 | Some v \<Rightarrow> v)"
    and "numElements \<in> {1, 2, 3, 4}"
    and "0 \<le> offset" and "0 \<le> typeSize"
    and "of_int offset + numElements \<le> of_int numVertex"
    and "numVertex * typeSize \<le> 2 ^ 53"
  shows "descriptor_invariant (of_int typeSize)
           (createAttribute name numElements (of_int numVertex) type
              (map_option of_int offset_opt) (map_option of_int typeSize_opt) normalized_opt)"
proof -
  have ne: "0 \<le> numElements" using assms(3) by auto
  have "(of_int offset :: real) \<le> of_int numVertex" using assms(6) ne by linarith
  then have ov: "offset \<le> numVertex" by simp
  then have v0: "0 \<le> numVertex" using assms(4) by linarith
  have "offset * typeSize \<le> numVertex * typeSize" using ov assms(5) by (rule mult_right_mono)
  then have ot: "offset * typeSize \<le> 2 ^ 53" using assms(7) by linarith
  have fields: "createAttribute name numElements (of_int numVertex) type
           (map_option of_int offset_opt) (map_option of_int typeSize_opt) normalized_opt
         = \<lparr> attr_name = name,
             attr_size = numElements,
             attr_stride = Num (of_int (numVertex * typeSize)),
             attr_offset = Num (of_int (offset * typeSize)),
             attr_type = type,
             attr_normalized = (case normalized_opt of None \<Rightarrow> False | Some v \<Rightarrow> v) \<rparr>"
    using assms(1,2,4,5) v0 ot assms(7) by (rule createAttribute_exact)
  have "(of_int offset + numElements) * of_int typeSize \<le> of_int numVertex * (of_int typeSize :: real)"
    using assms(6,5) by (intro mult_right_mono) simp_all
  then have "of_int (offset * typeSize) + numElements * of_int typeSize
               \<le> (of_int (numVertex * typeSize) :: real)"
    by (simp add: algebra_simps)
  then show ?thesis using assms(3) unfolding fields by (simp add: descriptor_invariant_def)
qed

text \<open>
  The amended C8 at \<^verbatim>\<open>createAttribute("vertColor", 3, 5, "float", 2)\<close>: offset 8,
  stride 20, and \<open>8 + 3 \<times> 4 \<le> 20\<close>.
\<close>

theorem createAttribute_invariant_witness:
  "descriptor_invariant 4 (createAttribute ''vertColor'' 3 5 ''float'' (Some 2) None None)
   \<and> createAttribute ''vertColor'' 3 5 ''float'' (Some 2) None None
       = \<lparr> attr_name = ''vertColor'', attr_size = 3, attr_stride = Num 20, attr_offset = Num 8,
           attr_type = ''float'', attr_normalized = False \<rparr>"
  using createAttribute_invariant [of 2 "Some 2" 4 None 3 5 "''vertColor''" "''float''" None]
  by (simp add: createAttribute_fields to_double_half_integer)

subsection \<open>makeShader\<close>

text \<open>
  C6, as stated, ends: a failing fragment-stage compile reports stage "fragment" with a
  non-empty log. The log is whatever the driver returns, and \<^verbatim>\<open>makeShader\<close> passes
  it on: with a driver that rejects the source and returns the empty log, the message is
  \<^verbatim>\<open>ERROR compiling fragment shader: \<close> and nothing after it.
\<close>

theorem makeShader_empty_log:
  "\<not> compileStatus silent_driver FRAGMENT_SHADER ''void main( {''
   \<and> infoLog silent_driver FRAGMENT_SHADER ''void main( {'' = Some []
   \<and> fst (makeShader silent_driver ''void main( {'' FRAGMENT_SHADER)
       = Inl (Error ''ERROR compiling fragment shader: '')"
  by (simp add: silent_driver_def makeShader_def fresh_def Let_def template_text_def)

text \<open>
  C6, amended. For every shader source and stage, when the compiler reports a
  non-success status, \<^verbatim>\<open>makeShader\<close> throws an \<^verbatim>\<open>Error\<close> whose message is
  \<^verbatim>\<open>ERROR compiling \<close>, the stage (\<^verbatim>\<open>vertex\<close> or \<^verbatim>\<open>fragment\<close>, matching the stage
  argument), \<^verbatim>\<open> shader: \<close> and then the full info log as the driver returned it (the
  text \<^verbatim>\<open>null\<close> when the driver returns none). In particular a failing
  fragment-stage compile reports stage "fragment", and the log in the message is
  non-empty whenever the driver's log is.
\<close>

theorem makeShader_error_message:
  assumes "\<not> compileStatus gl shaderType shaderSource"
  shows "fst (makeShader gl shaderSource shaderType)
           = Inl (Error (''ERROR compiling ''
                   @ (case shaderType of VERTEX_SHADER \<Rightarrow> ''vertex'' | FRAGMENT_SHADER \<Rightarrow> ''fragment'')
                   @ '' shader: ''
                   @ (case infoLog gl shaderType shaderSource of None \<Rightarrow> ''null'' | Some msg \<Rightarrow> msg)))"
  using assms
  by (cases shaderType) (simp_all add: makeShader_def fresh_def Let_def template_text_def)

text \<open>
  The amended C6 at a fragment shader with a syntax error, on a driver that reports
  \<^verbatim>\<open>ERROR: 0:1: syntax error\<close>.
\<close>

theorem makeShader_error_message_witness:
  "\<not> compileStatus strict_driver FRAGMENT_SHADER ''void main( {''
   \<and> fst (makeShader strict_driver ''void main( {'' FRAGMENT_SHADER)
       = Inl (Error ''ERROR compiling fragment shader: ERROR: 0:1: syntax error'')"
  using makeShader_error_message [of strict_driver FRAGMENT_SHADER "''void main( {''"]
  by (simp add: strict_driver_def)

subsection \<open>createBuffer\<close>

text \<open>
  A call leaves the driver's answers alone and extends the trace.
\<close>

lemma call_simps [simp]:
  "compileStatus (call c gl) = compileStatus gl"
  "infoLog (call c gl) = infoLog gl"
  "attribLocation (call c gl) = attribLocation gl"
  "nextHandle (call c gl) = nextHandle gl"
  "trace (call c gl) = trace gl @ [c]"
  by (simp_all add: call_def)

lemma call_trace_update:
  "(call c gl)\<lparr>trace := t\<rparr> = gl\<lparr>trace := t\<rparr>"
  by (simp add: call_def)

text \<open>
  The loop over the attributes, when \<open>a\<close> is the first attribute without a location:
  the attributes before it are looked up, configured and enabled in order, then \<open>a\<close> is
  looked up and the loop throws. The attributes after \<open>a\<close> play no part.
\<close>

lemma forEach_attr_throws:
  assumes "\<forall>p\<in>set pre. attribLocation gl program (attr_name p) \<noteq> - 1"
    and "attribLocation gl program (attr_name a) = - 1"
  shows "forEach_attr program (pre @ a # post) gl =
           (Inl (Thrown (''Can not find attribute '' @ attr_name a @ ''.'')),
            gl\<lparr>trace := trace gl
                   @ concat (map (\<lambda>p. attr_calls program (attribLocation gl program (attr_name p)) p) pre)
                   @ [GetAttribLocation program (attr_name a)]\<rparr>)"
  using assms
proof (induction pre arbitrary: gl)
  case Nil
  then show ?case by (simp add: Let_def call_def)
next
  case (Cons p pre)
  let ?loc = "attribLocation gl program (attr_name p)"
  let ?gl3 = "call (EnableVertexAttribArray ?loc)
                (call (VertexAttribPointer ?loc (attr_size p) (attr_type p) (attr_normalized p)
                         (attr_stride p) (attr_offset p))
                   (call (GetAttribLocation program (attr_name p)) gl))"
  have found: "?loc \<noteq> - 1" using Cons.prems(1) by simp
  have step: "forEach_attr program ((p # pre) @ a # post) gl = forEach_attr program (pre @ a # post) ?gl3"
    using found by (simp add: Let_def)
  have loc: "attribLocation ?gl3 = attribLocation gl" by simp
  have tr: "trace ?gl3 = trace gl @ attr_calls program ?loc p" by (simp add: attr_calls_def)
  have upd: "?gl3\<lparr>trace := t\<rparr> = gl\<lparr>trace := t\<rparr>" for t by (simp add: call_trace_update)
  have "forEach_attr program (pre @ a # post) ?gl3 =
           (Inl (Thrown (''Can not find attribute '' @ attr_name a @ ''.'')),
            ?gl3\<lparr>trace := trace ?gl3
                   @ concat (map (\<lambda>p. attr_calls program (attribLocation ?gl3 program (attr_name p)) p) pre)
                   @ [GetAttribLocation program (attr_name a)]\<rparr>)"
    using Cons.prems by (intro Cons.IH) (simp_all only: loc list.set_intros ball_simps, simp_all)
  then show ?case
    unfolding step by (simp only: loc tr upd) simp
qed

lemma createBuffer_throws:
  assumes "\<forall>p\<in>set pre. attribLocation gl program (attr_name p) \<noteq> - 1"
    and "attribLocation gl program (attr_name a) = - 1"
  shows "createBuffer gl program bufferData (pre @ a # post) type_opt bufferDataType_opt =
           (Inl (Thrown (''Can not find attribute '' @ attr_name a @ ''.'')),
            gl\<lparr>nextHandle := nextHandle gl + 1,
               trace := trace gl
                   @ [CreateBuffer,
                      BindBuffer (case type_opt of None \<Rightarrow> ARRAY_BUFFER | Some v \<Rightarrow> v) (nextHandle gl),
                      BufferData (case type_opt of None \<Rightarrow> ARRAY_BUFFER | Some v \<Rightarrow> v) bufferData
                        (case bufferDataType_opt of None \<Rightarrow> STATIC_DRAW | Some v \<Rightarrow> v)]
                   @ concat (map (\<lambda>p. attr_calls program (attribLocation gl program (attr_name p)) p) pre)
                   @ [GetAttribLocation program (attr_name a)]\<rparr>)"
proof -
  let ?ty = "case type_opt of None \<Rightarrow> ARRAY_BUFFER | Some v \<Rightarrow> v"
  let ?us = "case bufferDataType_opt of None \<Rightarrow> STATIC_DRAW | Some v \<Rightarrow> v"
  let ?gl3 = "call (BufferData ?ty bufferData ?us)
                (call (BindBuffer ?ty (nextHandle gl))
                   (call CreateBuffer (gl\<lparr>nextHandle := nextHandle gl + 1\<rparr>)))"
  have unfold: "createBuffer gl program bufferData (pre @ a # post) type_opt bufferDataType_opt
                  = forEach_attr program (pre @ a # post) ?gl3"
    by (simp add: createBuffer_def fresh_def Let_def)
  have loc: "attribLocation ?gl3 = attribLocation gl" by simp
  have "forEach_attr program (pre @ a # post) ?gl3 =
           (Inl (Thrown (''Can not find attribute '' @ attr_name a @ ''.'')),
            ?gl3\<lparr>trace := trace ?gl3
                   @ concat (map (\<lambda>p. attr_calls program (attribLocation ?gl3 program (attr_name p)) p) pre)
                   @ [GetAttribLocation program (attr_name a)]\<rparr>)"
    using assms by (intro forEach_attr_throws) simp_all
  then show ?thesis
    unfolding unfold by (simp only: loc) (simp add: call_def)
qed

lemma filter_configures_attr_calls:
  "filter configures (concat (map (\<lambda>p. attr_calls program (loc p) p) pre))
     = concat (map (\<lambda>p. [VertexAttribPointer (loc p) (attr_size p) (attr_type p) (attr_normalized p)
                              (attr_stride p) (attr_offset p),
                           EnableVertexAttribArray (loc p)]) pre)"
  by (induction pre) (simp_all add: attr_calls_def)

text \<open>
  C5. When \<^verbatim>\<open>createBuffer\<close> meets an attribute whose name has no location in the
  program (the lookup returns \<open>-1\<close>), it throws a value that carries the name of that
  attribute (\<^verbatim>\<open>Can not find attribute NAME.\<close>), and no descriptor after the failing
  one is configured or enabled: the configuring and enabling calls made are exactly
  those of the descriptors before it, and the whole outcome is the one of the list cut
  after the failing descriptor.
\<close>

theorem createBuffer_missing_attribute:
  assumes "\<forall>p\<in>set pre. attribLocation gl program (attr_name p) \<noteq> - 1"
    and "attribLocation gl program (attr_name a) = - 1"
  shows "fst (createBuffer gl program bufferData (pre @ a # post) type_opt bufferDataType_opt)
           = Inl (Thrown (''Can not find attribute '' @ attr_name a @ ''.''))
    \<and> filter configures
         (trace (snd (createBuffer gl program bufferData (pre @ a # post) type_opt bufferDataType_opt)))
         = filter configures (trace gl)
           @ concat (map (\<lambda>p. [VertexAttribPointer (attribLocation gl program (attr_name p))
                                   (attr_size p) (attr_type p) (attr_normalized p)
                                   (attr_stride p) (attr_offset p),
                                 EnableVertexAttribArray (attribLocation gl program (attr_name p))]) pre)
    \<and> createBuffer gl program bufferData (pre @ a # post) type_opt bufferDataType_opt
         = createBuffer gl program bufferData (pre @ [a]) type_opt bufferDataType_opt"
  by (simp add: createBuffer_throws [OF assms] createBuffer_throws [OF assms, of _ "[]"]
        filter_configures_attr_calls)

text \<open>
  C5 at the attributes \<^verbatim>\<open>vertPosition\<close>, \<^verbatim>\<open>doesNotExist\<close>, \<^verbatim>\<open>vertColor\<close> on a
  program that has \<^verbatim>\<open>vertPosition\<close> only: slot 0 is configured and enabled, nothing
  else.
\<close>

theorem createBuffer_missing_attribute_witness:
  "fst (createBuffer strict_driver 7 [- 1, 1, - 1, - 1, 1, 1, 1, - 1]
          [createAttribute ''vertPosition'' 2 2 FLOAT None None None,
           createAttribute ''doesNotExist'' 3 5 FLOAT (Some 2) None None,
           createAttribute ''vertColor'' 3 5 FLOAT (Some 2) None None] None None)
     = Inl (Thrown ''Can not find attribute doesNotExist.'')
   \<and> filter configures (trace (snd (createBuffer strict_driver 7 [- 1, 1, - 1, - 1, 1, 1, 1, - 1]
          [createAttribute ''vertPosition'' 2 2 FLOAT None None None,
           createAttribute ''doesNotExist'' 3 5 FLOAT (Some 2) None None,
           createAttribute ''vertColor'' 3 5 FLOAT (Some 2) None None] None None)))
     = [VertexAttribPointer 0 2 FLOAT False (Num 8) (Num 0), EnableVertexAttribArray 0]"
  using createBuffer_missing_attribute
          [of "[createAttribute ''vertPosition'' 2 2 FLOAT None None None]" strict_driver 7
              "createAttribute ''doesNotExist'' 3 5 FLOAT (Some 2) None None"
              "[- 1, 1, - 1, - 1, 1, 1, 1, - 1]"
              "[createAttribute ''vertColor'' 3 5 FLOAT (Some 2) None None]" None None]
  by (simp add: strict_driver_def createAttribute_def BYTES_PER_ELEMENT_def
        createBuffer_def fresh_def Let_def to_double_half_integer)

text \<open>
  Every call of \<^verbatim>\<open>createBuffer\<close>, whatever the attributes: the result and the trace.
\<close>

lemma forEach_attr_trace:
  "forEach_attr program attributes gl =
     (attr_outcome (attribLocation gl program) attributes,
      gl\<lparr>trace := trace gl @ attr_trace (attribLocation gl program) program attributes\<rparr>)"
proof (induction attributes arbitrary: gl)
  case Nil
  show ?case by simp
next
  case (Cons p rest)
  let ?loc = "attribLocation gl program (attr_name p)"
  let ?gl3 = "call (EnableVertexAttribArray ?loc)
                (call (VertexAttribPointer ?loc (attr_size p) (attr_type p) (attr_normalized p)
                         (attr_stride p) (attr_offset p))
                   (call (GetAttribLocation program (attr_name p)) gl))"
  show ?case
  proof (cases "?loc = - 1")
    case True
    then show ?thesis by (simp add: Let_def call_def)
  next
    case False
    have step: "forEach_attr program (p # rest) gl = forEach_attr program rest ?gl3"
      using False by (simp add: Let_def)
    have loc: "attribLocation ?gl3 = attribLocation gl" by simp
    have tr: "trace ?gl3 = trace gl @ attr_calls program ?loc p" by (simp add: attr_calls_def)
    have upd: "?gl3\<lparr>trace := t\<rparr> = gl\<lparr>trace := t\<rparr>" for t by (simp add: call_trace_update)
    show ?thesis
      unfolding step Cons.IH [of ?gl3] using False by (simp only: loc tr upd) simp
  qed
qed

lemma createBuffer_trace:
  "createBuffer gl program bufferData attributes type_opt bufferDataType_opt =
     (attr_outcome (attribLocation gl program) attributes,
      gl\<lparr>nextHandle := nextHandle gl + 1,
         trace := trace gl
           @ [CreateBuffer,
              BindBuffer (case type_opt of None \<Rightarrow> ARRAY_BUFFER | Some v \<Rightarrow> v) (nextHandle gl),
              BufferData (case type_opt of None \<Rightarrow> ARRAY_BUFFER | Some v \<Rightarrow> v) bufferData
                (case bufferDataType_opt of None \<Rightarrow> STATIC_DRAW | Some v \<Rightarrow> v)]
           @ attr_trace (attribLocation gl program) program attributes\<rparr>)"
  by (simp add: createBuffer_def fresh_def Let_def forEach_attr_trace call_def)

lemma attr_trace_missing:
  assumes "\<forall>p\<in>set pre. loc (attr_name p) \<noteq> - 1" and "loc (attr_name a) = - 1"
  shows "attr_trace loc program (pre @ a # post)
           = concat (map (\<lambda>p. attr_calls program (loc (attr_name p)) p) pre)
             @ [GetAttribLocation program (attr_name a)]"
    and "attr_outcome loc (pre @ a # post)
           = Inl (Thrown (''Can not find attribute '' @ attr_name a @ ''.''))"
  using assms by (induction pre) simp_all

text \<open>
  C10. \<^verbatim>\<open>createBuffer\<close> creates, binds and uploads the buffer before any attribute
  lookup: for every list of attributes, also the empty one and one in which no lookup
  fails, the calls it makes are the creation, the binding and the upload of the buffer,
  and only then the calls of the loop over the attributes. So when it throws for a
  missing attribute, the upload has taken place, and the calls of the loop are, in this
  order: for each attribute before the failing one its lookup, its configuration and its
  enabling; then the lookup that failed. The context after the throw is not the context
  before the call.
\<close>

theorem createBuffer_uploads_before_lookup:
  "createBuffer gl program bufferData attributes type_opt bufferDataType_opt =
     (attr_outcome (attribLocation gl program) attributes,
      gl\<lparr>nextHandle := nextHandle gl + 1,
         trace := trace gl
           @ [CreateBuffer,
              BindBuffer (case type_opt of None \<Rightarrow> ARRAY_BUFFER | Some v \<Rightarrow> v) (nextHandle gl),
              BufferData (case type_opt of None \<Rightarrow> ARRAY_BUFFER | Some v \<Rightarrow> v) bufferData
                (case bufferDataType_opt of None \<Rightarrow> STATIC_DRAW | Some v \<Rightarrow> v)]
           @ attr_trace (attribLocation gl program) program attributes\<rparr>)
   \<and> (attributes = pre @ a # post
        \<and> (\<forall>p\<in>set pre. attribLocation gl program (attr_name p) \<noteq> - 1)
        \<and> attribLocation gl program (attr_name a) = - 1
      \<longrightarrow> fst (createBuffer gl program bufferData attributes type_opt bufferDataType_opt)
            = Inl (Thrown (''Can not find attribute '' @ attr_name a @ ''.''))
        \<and> attr_trace (attribLocation gl program) program attributes
            = concat (map (\<lambda>p. [GetAttribLocation program (attr_name p),
                                 VertexAttribPointer (attribLocation gl program (attr_name p))
                                   (attr_size p) (attr_type p) (attr_normalized p)
                                   (attr_stride p) (attr_offset p),
                                 EnableVertexAttribArray (attribLocation gl program (attr_name p))]) pre)
              @ [GetAttribLocation program (attr_name a)]
        \<and> snd (createBuffer gl program bufferData attributes type_opt bufferDataType_opt) \<noteq> gl)"
proof (intro conjI impI)
  show "createBuffer gl program bufferData attributes type_opt bufferDataType_opt =
     (attr_outcome (attribLocation gl program) attributes,
      gl\<lparr>nextHandle := nextHandle gl + 1,
         trace := trace gl
           @ [CreateBuffer,
              BindBuffer (case type_opt of None \<Rightarrow> ARRAY_BUFFER | Some v \<Rightarrow> v) (nextHandle gl),
              BufferData (case type_opt of None \<Rightarrow> ARRAY_BUFFER | Some v \<Rightarrow> v) bufferData
                (case bufferDataType_opt of None \<Rightarrow> STATIC_DRAW | Some v \<Rightarrow> v)]
           @ attr_trace (attribLocation gl program) program attributes\<rparr>)"
    by (rule createBuffer_trace)
next
  assume h: "attributes = pre @ a # post
        \<and> (\<forall>p\<in>set pre. attribLocation gl program (attr_name p) \<noteq> - 1)
        \<and> attribLocation gl program (attr_name a) = - 1"
  then have pre: "\<forall>p\<in>set pre. attribLocation gl program (attr_name p) \<noteq> - 1"
    and a: "attribLocation gl program (attr_name a) = - 1" and eq: "attributes = pre @ a # post"
    by simp_all
  show "fst (createBuffer gl program bufferData attributes type_opt bufferDataType_opt)
            = Inl (Thrown (''Can not find attribute '' @ attr_name a @ ''.''))"
    unfolding createBuffer_trace eq by (simp add: attr_trace_missing(2) [OF pre a])
  show "attr_trace (attribLocation gl program) program attributes
            = concat (map (\<lambda>p. [GetAttribLocation program (attr_name p),
                                 VertexAttribPointer (attribLocation gl program (attr_name p))
                                   (attr_size p) (attr_type p) (attr_normalized p)
                                   (attr_stride p) (attr_offset p),
                                 EnableVertexAttribArray (attribLocation gl program (attr_name p))]) pre)
              @ [GetAttribLocation program (attr_name a)]"
    unfolding eq by (simp add: attr_trace_missing(1) [OF pre a] attr_calls_def)
  have "trace (snd (createBuffer gl program bufferData attributes type_opt bufferDataType_opt))
          \<noteq> trace gl"
    unfolding createBuffer_trace by simp
  then show "snd (createBuffer gl program bufferData attributes type_opt bufferDataType_opt) \<noteq> gl"
    by auto
qed

text \<open>
  C10 at the attributes \<^verbatim>\<open>vertPosition\<close>, \<^verbatim>\<open>doesNotExist\<close>, \<^verbatim>\<open>vertColor\<close>, and at
  no attributes at all, on a context with an empty trace.
\<close>

theorem createBuffer_uploads_before_lookup_witness:
  "createBuffer strict_driver 7 [- 1, 1, - 1, - 1, 1, 1, 1, - 1]
          [createAttribute ''vertPosition'' 2 2 FLOAT None None None,
           createAttribute ''doesNotExist'' 3 5 FLOAT (Some 2) None None,
           createAttribute ''vertColor'' 3 5 FLOAT (Some 2) None None] None None
     = (Inl (Thrown ''Can not find attribute doesNotExist.''),
        strict_driver\<lparr>nextHandle := 1,
          trace := [CreateBuffer, BindBuffer ARRAY_BUFFER 0,
            BufferData ARRAY_BUFFER [- 1, 1, - 1, - 1, 1, 1, 1, - 1] STATIC_DRAW,
            GetAttribLocation 7 ''vertPosition'',
            VertexAttribPointer 0 2 FLOAT False (Num 8) (Num 0), EnableVertexAttribArray 0,
            GetAttribLocation 7 ''doesNotExist'']\<rparr>)
   \<and> createBuffer strict_driver 7 [- 1, 1, - 1, - 1, 1, 1, 1, - 1] [] None None
     = (Inr (),
        strict_driver\<lparr>nextHandle := 1,
          trace := [CreateBuffer, BindBuffer ARRAY_BUFFER 0,
            BufferData ARRAY_BUFFER [- 1, 1, - 1, - 1, 1, 1, 1, - 1] STATIC_DRAW]\<rparr>)"
  using createBuffer_uploads_before_lookup
          [of strict_driver 7 "[- 1, 1, - 1, - 1, 1, 1, 1, - 1]"
              "[createAttribute ''vertPosition'' 2 2 FLOAT None None None,
                createAttribute ''doesNotExist'' 3 5 FLOAT (Some 2) None None,
                createAttribute ''vertColor'' 3 5 FLOAT (Some 2) None None]" None None
              "[createAttribute ''vertPosition'' 2 2 FLOAT None None None]"
              "createAttribute ''doesNotExist'' 3 5 FLOAT (Some 2) None None"
              "[createAttribute ''vertColor'' 3 5 FLOAT (Some 2) None None]"]
        createBuffer_uploads_before_lookup
          [of strict_driver 7 "[- 1, 1, - 1, - 1, 1, 1, 1, - 1]" "[]" None None]
  by (simp add: strict_driver_def createAttribute_def BYTES_PER_ELEMENT_def attr_calls_def
        to_double_half_integer)

subsection \<open>generateCircleUniformData: the two loops\<close>

text \<open>
  The first loop pushes one record per round, \<open>numCircles\<close> records in all (none for
  a negative count).
\<close>

lemma length_genLoop:
  "length (genLoop random d mx mn n i k cs) = length cs + nat (n - int i)"
proof (induction random d mx mn n i k cs rule: genLoop.induct)
  case (1 random d mx mn n i k cs)
  show ?case
  proof (cases "int i < n")
    case True
    then show ?thesis
      using "1.IH" [OF True refl refl refl]
      by (subst genLoop.simps) (simp add: Let_def)
  next
    case False
    then show ?thesis by (subst genLoop.simps) simp
  qed
qed

lemma length_circlesGenerated:
  "length (circlesGenerated random numCircles radiusLimits canvasDimensions) = nat numCircles"
  by (simp add: circlesGenerated_def length_genLoop)

text \<open>
  A property of the record of every round is a property of every generated record.
\<close>

lemma genLoop_all:
  assumes "\<forall>c\<in>set cs. P c"
    and "\<And>k. P \<lparr> circle_x = drawn_center (width d) (drawn_radius mx mn (random k)) (random (k + 1)),
                  circle_y = drawn_center (height d) (drawn_radius mx mn (random k)) (random (k + 2)),
                  circle_r = drawn_radius mx mn (random k) \<rparr>"
  shows "\<forall>c\<in>set (genLoop random d mx mn n i k cs). P c"
  using assms
proof (induction random d mx mn n i k cs rule: genLoop.induct)
  case (1 random d mx mn n i k cs)
  show ?case
  proof (cases "int i < n")
    case True
    let ?radius = "js_add (js_mul (Num (random k)) (js_sub mx mn)) mn"
    let ?x = "js_add (js_mul (Num (random (k + 1))) (js_sub (Num (width d)) (js_mul (Num 2) ?radius))) ?radius"
    let ?y = "js_add (js_mul (Num (random (k + 2))) (js_sub (Num (height d)) (js_mul (Num 2) ?radius))) ?radius"
    let ?c = "\<lparr> circle_x = ?x, circle_y = ?y, circle_r = ?radius \<rparr>"
    have step: "genLoop random d mx mn n i k cs = genLoop random d mx mn n (i + 1) (k + 3) (cs @ [?c])"
      using True by (subst genLoop.simps) (simp add: Let_def)
    have "P ?c"
      using "1.prems"(2) [of k] by (simp only: drawn_center_def drawn_radius_def)
    then have all: "\<forall>c\<in>set (cs @ [?c]). P c"
      using "1.prems"(1) by simp
    have "\<forall>c\<in>set (genLoop random d mx mn n (i + 1) (k + 3) (cs @ [?c])). P c"
      by (rule "1.IH" [OF True refl refl refl all "1.prems"(2)])
    then show ?thesis by (simp only: step)
  next
    case False
    then show ?thesis using "1.prems"(1) by (subst genLoop.simps) simp
  qed
qed

lemma circlesGenerated_all:
  assumes "\<And>k. P \<lparr> circle_x = drawn_center (width dims)
                              (drawn_radius (MAX_RADIUS limits dims) (MIN_RADIUS limits dims) (random k))
                              (random (k + 1)),
                  circle_y = drawn_center (height dims)
                              (drawn_radius (MAX_RADIUS limits dims) (MIN_RADIUS limits dims) (random k))
                              (random (k + 2)),
                  circle_r = drawn_radius (MAX_RADIUS limits dims) (MIN_RADIUS limits dims) (random k) \<rparr>"
  shows "\<forall>c\<in>set (circlesGenerated random numCircles limits dims). P c"
  unfolding circlesGenerated_def
proof (rule genLoop_all)
  show "\<forall>c\<in>set []. P c" by simp
next
  fix k
  show "P \<lparr> circle_x = drawn_center (width dims)
                              (drawn_radius (MAX_RADIUS limits dims) (MIN_RADIUS limits dims) (random k))
                              (random (k + 1)),
                  circle_y = drawn_center (height dims)
                              (drawn_radius (MAX_RADIUS limits dims) (MIN_RADIUS limits dims) (random k))
                              (random (k + 2)),
                  circle_r = drawn_radius (MAX_RADIUS limits dims) (MIN_RADIUS limits dims) (random k) \<rparr>"
    by (rule assms)
qed

lemma circlesGenerated_every_draw_half:
  "circlesGenerated every_draw_half numCircles limits dims =
     replicate (nat numCircles)
       \<lparr> circle_x = drawn_center (width dims)
                     (drawn_radius (MAX_RADIUS limits dims) (MIN_RADIUS limits dims) (1 / 2)) (1 / 2),
         circle_y = drawn_center (height dims)
                     (drawn_radius (MAX_RADIUS limits dims) (MIN_RADIUS limits dims) (1 / 2)) (1 / 2),
         circle_r = drawn_radius (MAX_RADIUS limits dims) (MIN_RADIUS limits dims) (1 / 2) \<rparr>"
  (is "?cs = replicate _ ?c")
proof -
  have "\<forall>c\<in>set ?cs. c = ?c"
    by (rule circlesGenerated_all) (simp add: every_draw_half_def)
  then have "replicate (length ?cs) ?c = ?cs"
    by (intro replicate_length_same) simp
  then show ?thesis by (simp add: length_circlesGenerated)
qed

text \<open>
  The second loop throws when \<^verbatim>\<open>circles\<close> has fewer than \<open>NUM_CIRCLES\<close> records,
  and otherwise returns the array with the entries \<open>3 * i\<close> to \<open>3 * NUM_CIRCLES - 1\<close>
  overwritten and every other entry as it was.
\<close>

lemma packLoop_throws:
  "length cs < NUM_CIRCLES \<Longrightarrow> i \<le> length cs \<Longrightarrow> packLoop cs i a = Inl TypeError"
proof (induction cs i a rule: packLoop.induct)
  case (1 cs i a)
  show ?case
  proof (cases "i < length cs")
    case True
    then show ?thesis
      using "1.prems" "1.IH" [OF _ refl True refl refl refl refl]
      by (subst packLoop.simps) (simp add: Let_def)
  next
    case False
    then show ?thesis
      using "1.prems" by (subst packLoop.simps) (simp add: Let_def)
  qed
qed

lemma length_f32_store [simp]: "length (f32_store a idx v) = length a"
  by (simp add: f32_store_def)

lemma nth_f32_store:
  "j < length a \<Longrightarrow> f32_store a idx v ! j = (if j = idx then fround v else a ! j)"
  by (simp add: f32_store_def)

lemma packLoop_returns:
  "NUM_CIRCLES \<le> length cs \<Longrightarrow>
   \<exists>out. packLoop cs i a = Inr out \<and> length out = length a \<and>
     (\<forall>j<length a. out ! j =
        (if 3 * i \<le> j \<and> j < 3 * NUM_CIRCLES then fround (component (cs ! (j div 3)) (j mod 3)) else a ! j))"
proof (induction cs i a rule: packLoop.induct)
  case (1 cs i a)
  show ?case
  proof (cases "i < NUM_CIRCLES")
    case True
    then have il: "i < length cs" using "1.prems" by simp
    define u3 where "u3 = f32_store (f32_store (f32_store a (CIRCLE_ELEMENTS * i + 0) (circle_x (cs ! i)))
        (CIRCLE_ELEMENTS * i + 1) (circle_y (cs ! i))) (CIRCLE_ELEMENTS * i + 2) (circle_r (cs ! i))"
    have unfold: "packLoop cs i a = packLoop cs (i + 1) u3"
      using True il by (subst packLoop.simps) (simp add: Let_def u3_def)
    have "\<exists>out. packLoop cs (i + 1) u3 = Inr out \<and> length out = length u3 \<and>
     (\<forall>j<length u3. out ! j =
        (if 3 * (i + 1) \<le> j \<and> j < 3 * NUM_CIRCLES then fround (component (cs ! (j div 3)) (j mod 3)) else u3 ! j))"
      unfolding u3_def by (rule "1.IH" [OF True refl il refl refl refl refl "1.prems"])
    then obtain out where o: "packLoop cs (i + 1) u3 = Inr out" "length out = length u3"
      "\<forall>j<length u3. out ! j =
        (if 3 * (i + 1) \<le> j \<and> j < 3 * NUM_CIRCLES then fround (component (cs ! (j div 3)) (j mod 3)) else u3 ! j)"
      by blast
    have len: "length u3 = length a" by (simp add: u3_def)
    have u3nth: "u3 ! j = (if j = 3 * i + 2 then fround (circle_r (cs ! i))
                           else if j = 3 * i + 1 then fround (circle_y (cs ! i))
                           else if j = 3 * i then fround (circle_x (cs ! i)) else a ! j)"
      if "j < length a" for j
      using that by (simp add: u3_def nth_f32_store CIRCLE_ELEMENTS_def)
    have "out ! j = (if 3 * i \<le> j \<and> j < 3 * NUM_CIRCLES then fround (component (cs ! (j div 3)) (j mod 3)) else a ! j)"
      if j: "j < length a" for j
    proof -
      have "j = 3 * i \<or> j = 3 * i + 1 \<or> j = 3 * i + 2 \<or> j < 3 * i \<or> 3 * (i + 1) \<le> j"
        by arith
      then consider "j = 3 * i" | "j = 3 * i + 1" | "j = 3 * i + 2" | "j < 3 * i" | "3 * (i + 1) \<le> j"
        by blast
      then show ?thesis
      proof cases
        case 1
        then have "j div 3 = i" "j mod 3 = 0" by presburger+
        then show ?thesis using 1 o(3) j len u3nth [OF j] True by (simp add: component_def)
      next
        case 2
        then have "j div 3 = i" "j mod 3 = 1" by presburger+
        then show ?thesis using 2 o(3) j len u3nth [OF j] True by (simp add: component_def)
      next
        case 3
        then have "j div 3 = i" "j mod 3 = 2" by presburger+
        then show ?thesis using 3 o(3) j len u3nth [OF j] True by (simp add: component_def)
      next
        case 4
        then show ?thesis using o(3) j len u3nth [OF j] by simp
      next
        case 5
        then show ?thesis using o(3) j len u3nth [OF j] by simp
      qed
    qed
    then show ?thesis using unfold o(1,2) len by simp
  next
    case False
    then have ret: "packLoop cs i a = Inr a" by (subst packLoop.simps) simp
    have "\<not> (3 * i \<le> j \<and> j < 3 * NUM_CIRCLES)" for j using False by arith
    then show ?thesis using ret by auto
  qed
qed

lemma generate_throws:
  assumes "numCircles < int NUM_CIRCLES"
  shows "generateCircleUniformData random numCircles radiusLimits canvasDimensions
           = Inl (if numCircles < 0 then RangeError else TypeError)"
proof (cases "numCircles < 0")
  case True
  then show ?thesis
    by (simp add: generateCircleUniformData_def CIRCLE_ELEMENTS_def Let_def)
next
  case False
  have "length (circlesGenerated random numCircles radiusLimits canvasDimensions) < NUM_CIRCLES"
    using assms False by (simp add: length_circlesGenerated)
  then have "packLoop (circlesGenerated random numCircles radiusLimits canvasDimensions) 0
               (replicate (nat (int CIRCLE_ELEMENTS * numCircles)) (Num 0)) = Inl TypeError"
    by (rule packLoop_throws) simp
  then show ?thesis
    using False by (simp add: generateCircleUniformData_def CIRCLE_ELEMENTS_def Let_def)
qed

lemma generate_returns:
  assumes "int NUM_CIRCLES \<le> numCircles"
  shows "\<exists>out. generateCircleUniformData random numCircles radiusLimits canvasDimensions = Inr out
           \<and> length out = nat (3 * numCircles)
           \<and> (\<forall>j<length out. out ! j =
                 (if j < 3 * NUM_CIRCLES
                  then fround (component (circlesGenerated random numCircles radiusLimits canvasDimensions ! (j div 3)) (j mod 3))
                  else Num 0))"
proof -
  let ?cs = "circlesGenerated random numCircles radiusLimits canvasDimensions"
  let ?zeros = "replicate (nat (int CIRCLE_ELEMENTS * numCircles)) (Num 0)"
  have nonneg: "0 \<le> numCircles" using assms by simp
  have "NUM_CIRCLES \<le> length ?cs"
    using assms by (simp add: length_circlesGenerated)
  from packLoop_returns [OF this, of 0 ?zeros]
  obtain out where o: "packLoop ?cs 0 ?zeros = Inr out" "length out = length ?zeros"
    "\<forall>j<length ?zeros. out ! j =
       (if 3 * 0 \<le> j \<and> j < 3 * NUM_CIRCLES then fround (component (?cs ! (j div 3)) (j mod 3)) else ?zeros ! j)"
    by blast
  have gen: "generateCircleUniformData random numCircles radiusLimits canvasDimensions = Inr out"
    using nonneg o(1) by (simp add: generateCircleUniformData_def CIRCLE_ELEMENTS_def Let_def)
  have len: "length out = nat (3 * numCircles)"
    using o(2) by (simp add: CIRCLE_ELEMENTS_def)
  have "out ! j = (if j < 3 * NUM_CIRCLES then fround (component (?cs ! (j div 3)) (j mod 3)) else Num 0)"
    if "j < length out" for j
    using that o(2,3) by simp
  then show ?thesis using gen len by blast
qed

text \<open>
  C9. The packing loop is bounded by the constant \<open>NUM_CIRCLES = 12\<close>, not by the
  parameter \<open>numCircles\<close>. For every call with \<open>numCircles\<close> greater than 12 the
  function returns an array of \<open>3 \<times> numCircles\<close> entries in which the first 12 generated
  records are written, (x, y, r) at the indices \<open>3i, 3i + 1, 3i + 2\<close>, each component
  rounded to binary32 by the store, and every entry at index 36 and above is still 0. For every call with \<open>numCircles\<close> less than 12 the
  function throws instead of returning: a \<^verbatim>\<open>TypeError\<close> at the first missing record,
  or a \<^verbatim>\<open>RangeError\<close> from the allocation when the count is negative.
\<close>

theorem packing_loop_bounded_by_NUM_CIRCLES:
  "NUM_CIRCLES = 12
   \<and> (12 < numCircles \<longrightarrow>
        (\<exists>out. generateCircleUniformData random numCircles radiusLimits canvasDimensions = Inr out
           \<and> length out = nat (3 * numCircles)
           \<and> (\<forall>i<12. out ! (3 * i) = fround (circle_x (circlesGenerated random numCircles radiusLimits canvasDimensions ! i))
                      \<and> out ! (3 * i + 1) = fround (circle_y (circlesGenerated random numCircles radiusLimits canvasDimensions ! i))
                      \<and> out ! (3 * i + 2) = fround (circle_r (circlesGenerated random numCircles radiusLimits canvasDimensions ! i)))
           \<and> (\<forall>j. 36 \<le> j \<and> j < length out \<longrightarrow> out ! j = Num 0)))
   \<and> (numCircles < 12 \<longrightarrow>
        generateCircleUniformData random numCircles radiusLimits canvasDimensions
          = Inl (if numCircles < 0 then RangeError else TypeError))"
proof (intro conjI impI)
  show "NUM_CIRCLES = 12" by (simp add: NUM_CIRCLES_def)
next
  assume big: "12 < numCircles"
  let ?cs = "circlesGenerated random numCircles radiusLimits canvasDimensions"
  have "int NUM_CIRCLES \<le> numCircles" using big by (simp add: NUM_CIRCLES_def)
  from generate_returns [OF this, of random radiusLimits canvasDimensions]
  obtain out where o: "generateCircleUniformData random numCircles radiusLimits canvasDimensions = Inr out"
    "length out = nat (3 * numCircles)"
    "\<forall>j<length out. out ! j =
       (if j < 3 * NUM_CIRCLES then fround (component (?cs ! (j div 3)) (j mod 3)) else Num 0)"
    by blast
  have long: "36 < length out" using o(2) big by simp
  have first: "out ! (3 * i) = fround (circle_x (?cs ! i)) \<and> out ! (3 * i + 1) = fround (circle_y (?cs ! i))
               \<and> out ! (3 * i + 2) = fround (circle_r (?cs ! i))" if "i < 12" for i
  proof -
    have d: "(3 * i) div 3 = i" "(3 * i) mod 3 = 0" "(3 * i + 1) div 3 = i" "(3 * i + 1) mod 3 = 1"
      "(3 * i + 2) div 3 = i" "(3 * i + 2) mod 3 = 2"
      by presburger+
    have b: "3 * i < length out" "3 * i + 1 < length out" "3 * i + 2 < length out"
      "3 * i + 2 < 3 * NUM_CIRCLES" "3 * i + 1 < 3 * NUM_CIRCLES" "3 * i < 3 * NUM_CIRCLES"
      using that long by (simp_all add: NUM_CIRCLES_def)
    show ?thesis
      using o(3) [rule_format, OF b(1)] o(3) [rule_format, OF b(2)] o(3) [rule_format, OF b(3)] b d
      by (simp add: component_def)
  qed
  have rest: "out ! j = Num 0" if "36 \<le> j \<and> j < length out" for j
    using o(3) [rule_format, of j] that by (simp add: NUM_CIRCLES_def)
  show "\<exists>out. generateCircleUniformData random numCircles radiusLimits canvasDimensions = Inr out
           \<and> length out = nat (3 * numCircles)
           \<and> (\<forall>i<12. out ! (3 * i) = fround (circle_x (?cs ! i))
                      \<and> out ! (3 * i + 1) = fround (circle_y (?cs ! i))
                      \<and> out ! (3 * i + 2) = fround (circle_r (?cs ! i)))
           \<and> (\<forall>j. 36 \<le> j \<and> j < length out \<longrightarrow> out ! j = Num 0)"
    using o(1,2) first rest by blast
next
  assume "numCircles < 12"
  then have "numCircles < int NUM_CIRCLES" by (simp add: NUM_CIRCLES_def)
  then show "generateCircleUniformData random numCircles radiusLimits canvasDimensions
          = Inl (if numCircles < 0 then RangeError else TypeError)"
    by (rule generate_throws)
qed

text \<open>
  C9 at the counts 3, -1 and 13, radius limits \<^verbatim>\<open>{min: 50, max: 4}\<close>, a canvas of
  100 by 100 and every draw one half: the thirteenth record is (50, 50, 13.5), and the
  entries 36 to 38 of the array returned are 0.
\<close>

theorem packing_loop_bounded_by_NUM_CIRCLES_witness:
  "generateCircleUniformData every_draw_half 3 \<lparr>min_lim = 50, max_lim = 4\<rparr> \<lparr>width = 100, height = 100\<rparr>
     = Inl TypeError
   \<and> generateCircleUniformData every_draw_half (- 1) \<lparr>min_lim = 50, max_lim = 4\<rparr> \<lparr>width = 100, height = 100\<rparr>
     = Inl RangeError
   \<and> circlesGenerated every_draw_half 13 \<lparr>min_lim = 50, max_lim = 4\<rparr> \<lparr>width = 100, height = 100\<rparr> ! 12
     = \<lparr> circle_x = Num 50, circle_y = Num 50, circle_r = Num (27 / 2) \<rparr>
   \<and> (\<exists>out. generateCircleUniformData every_draw_half 13 \<lparr>min_lim = 50, max_lim = 4\<rparr>
                \<lparr>width = 100, height = 100\<rparr> = Inr out
          \<and> length out = 39
          \<and> out ! 33 = Num 50 \<and> out ! 34 = Num 50 \<and> out ! 35 = Num (27 / 2)
          \<and> out ! 36 = Num 0 \<and> out ! 37 = Num 0 \<and> out ! 38 = Num 0)"
proof -
  let ?L = "\<lparr>min_lim = 50, max_lim = 4\<rparr>"
  let ?D = "\<lparr>width = 100, height = 100\<rparr>"
  let ?c = "\<lparr> circle_x = Num 50, circle_y = Num 50, circle_r = Num (27 / 2) \<rparr>"
  have cs: "circlesGenerated every_draw_half 13 ?L ?D = replicate 13 ?c"
    by (simp add: circlesGenerated_every_draw_half drawn_center_def drawn_radius_def
          MAX_RADIUS_def MIN_RADIUS_def js_div_def sizeLimit_def to_double_half_integer)
  have few: "generateCircleUniformData every_draw_half 3 ?L ?D = Inl TypeError"
    using packing_loop_bounded_by_NUM_CIRCLES [of 3 every_draw_half ?L ?D] by simp
  have neg: "generateCircleUniformData every_draw_half (- 1) ?L ?D = Inl RangeError"
    using packing_loop_bounded_by_NUM_CIRCLES [of "- 1" every_draw_half ?L ?D] by simp
  from packing_loop_bounded_by_NUM_CIRCLES [of 13 every_draw_half ?L ?D]
  obtain out where o: "generateCircleUniformData every_draw_half 13 ?L ?D = Inr out"
    "length out = 39"
    "\<forall>i<12. out ! (3 * i) = fround (circle_x (replicate 13 ?c ! i))
          \<and> out ! (3 * i + 1) = fround (circle_y (replicate 13 ?c ! i))
          \<and> out ! (3 * i + 2) = fround (circle_r (replicate 13 ?c ! i))"
    "\<forall>j. 36 \<le> j \<and> j < length out \<longrightarrow> out ! j = Num 0"
    unfolding cs by auto
  have last: "out ! 33 = Num 50 \<and> out ! 34 = Num 50 \<and> out ! 35 = Num (27 / 2)"
    using o(3) [rule_format, of 11] by (simp add: to_float32_half_integer)
  have zeros: "out ! 36 = Num 0 \<and> out ! 37 = Num 0 \<and> out ! 38 = Num 0"
    using o(4) [rule_format, of 36] o(4) [rule_format, of 37] o(4) [rule_format, of 38] o(2)
    by simp
  have "circlesGenerated every_draw_half 13 ?L ?D ! 12 = ?c"
    unfolding cs by simp
  then show ?thesis using few neg o(1,2) last zeros by blast
qed

text \<open>
  C1 says that for every count from 0 on the array returned holds exactly that many
  records, \<open>3 \<times> count\<close> entries, packed in generation order. The code does not
  return for a count below 12: for one circle, whatever the draws, the radius limits and
  the canvas, the second round of the packing loop reads \<^verbatim>\<open>circles[1]\<close>, which is
  \<^verbatim>\<open>undefined\<close>, and throws.
\<close>

theorem one_circle_throws:
  "generateCircleUniformData random 1 radiusLimits canvasDimensions = Inl TypeError"
  using generate_throws [of 1 random radiusLimits canvasDimensions] by (simp add: NUM_CIRCLES_def)

text \<open>
  C2 says that \<^verbatim>\<open>generateCircleUniformData(3, {min: 50, max: 4}, {width: 100,
  height: 100})\<close> returns three records with radii in [2, 25] and centres inside the
  canvas. The call throws, whatever the draws: the packing loop runs to
  \<open>NUM_CIRCLES = 12\<close> and reads \<^verbatim>\<open>circles[3]\<close>.
\<close>

theorem three_circles_throw:
  "generateCircleUniformData random 3 \<lparr>min_lim = 50, max_lim = 4\<rparr> \<lparr>width = 100, height = 100\<rparr>
     = Inl TypeError"
  using generate_throws [of 3 random "\<lparr>min_lim = 50, max_lim = 4\<rparr>" "\<lparr>width = 100, height = 100\<rparr>"]
  by (simp add: NUM_CIRCLES_def)

subsection \<open>generateCircleUniformData: radii and centres\<close>

text \<open>
  The radius of a round, \<^verbatim>\<open>Math.random() * (MAX_RADIUS - MIN_RADIUS) + MIN_RADIUS\<close> in
  doubles, lies between the two bounds, whichever of them is the larger.
\<close>

lemma drawn_radius_ordered:
  assumes A: "is_double A" and B: "is_double B" and "0 \<le> B" and "B \<le> A"
    and u: "is_double u" "0 \<le> u" "u < 1"
  shows "\<exists>r. drawn_radius (Num A) (Num B) u = Num r \<and> is_double r \<and> B \<le> r \<and> r \<le> A"
proof -
  obtain d t where dt: "to_double (A - B) = Num d" "to_double (u * d) = Num t"
    "0 \<le> t" "t \<le> A - B"
    using to_double_scaled_difference [OF A B assms(3,4) u] by blast
  have "0 \<le> t + B" "t + B \<le> A" using dt(3,4) assms(3) by simp_all
  then obtain r where r: "to_double (t + B) = Num r" "r \<le> A" "is_double r"
    using to_double_bounded [OF _ _ A] by blast
  have "B \<le> r" using r(1) B assms(3) by (rule to_double_at_least) (use dt(3) in simp)
  moreover have "drawn_radius (Num A) (Num B) u = Num r"
    by (simp add: drawn_radius_def dt(1,2) r(1))
  ultimately show ?thesis using r(2,3) by blast
qed

lemma drawn_radius_reversed:
  assumes A: "is_double A" and B: "is_double B" and "0 \<le> A" and "A \<le> B"
    and u: "is_double u" "0 \<le> u" "u < 1"
  shows "\<exists>r. drawn_radius (Num A) (Num B) u = Num r \<and> is_double r \<and> A \<le> r \<and> r \<le> B"
proof -
  obtain d t where dt: "to_double (B - A) = Num d" "to_double (u * d) = Num t"
    "0 \<le> t" "t \<le> B - A"
    using to_double_scaled_difference [OF B A assms(3,4) u] by blast
  have "to_double (- (B - A)) = Num (- d)" using dt(1) by (rule to_double_uminus)
  then have s: "to_double (A - B) = Num (- d)" by simp
  have m: "to_double (- (u * d)) = Num (- t)" using dt(2) by (rule to_double_uminus)
  have "0 \<le> B - t" "B - t \<le> B" using dt(3,4) assms(3) by simp_all
  then obtain r where r: "to_double (B - t) = Num r" "r \<le> B" "is_double r"
    using to_double_bounded [OF _ _ B] by blast
  have "A \<le> r" using r(1) A assms(3) by (rule to_double_at_least) (use dt(4) in simp)
  moreover have "drawn_radius (Num A) (Num B) u = Num r"
    by (simp add: drawn_radius_def s m r(1))
  ultimately show ?thesis using r(2,3) by blast
qed

lemma drawn_radius_le:
  assumes "is_double A" and "is_double B" and "0 \<le> A" and "0 \<le> B" and "A \<le> M" and "B \<le> M"
    and u: "is_double u" "0 \<le> u" "u < 1"
  shows "\<exists>r. drawn_radius (Num A) (Num B) u = Num r \<and> is_double r \<and> 0 \<le> r \<and> r \<le> M"
proof (cases "B \<le> A")
  case True
  from drawn_radius_ordered [OF assms(1,2,4) True u]
  obtain r where "drawn_radius (Num A) (Num B) u = Num r" "is_double r" "B \<le> r" "r \<le> A"
    by blast
  then show ?thesis using assms(4,5) by force
next
  case False
  then have "A \<le> B" by simp
  from drawn_radius_reversed [OF assms(1,2,3) this u]
  obtain r where "drawn_radius (Num A) (Num B) u = Num r" "is_double r" "A \<le> r" "r \<le> B"
    by blast
  then show ?thesis using assms(3,6) by force
qed

text \<open>
  A centre coordinate, \<^verbatim>\<open>Math.random() * (extent - 2 * radius) + radius\<close> in doubles,
  lies between the radius and the rounded difference of extent and radius, when the
  diameter does not exceed the extent.
\<close>

lemma drawn_center_between:
  assumes W: "is_double W" and r: "is_double r" "0 \<le> r" "2 * r \<le> W"
    and v: "is_double v" "0 \<le> v" "v < 1"
  shows "\<exists>x wr. drawn_center W (Num r) v = Num x \<and> js_sub (Num W) (Num r) = Num wr
           \<and> is_double x \<and> r \<le> x \<and> x \<le> wr \<and> wr \<le> W"
proof -
  have W0: "0 \<le> W" using r(2,3) by linarith
  have "representable 53 (- 1022) (2 * r)"
    using is_double_D(1) [OF r(1)] r(2) by (rule representable_double) simp
  moreover have "\<bar>2 * r\<bar> < double_limit" using r(2,3) is_double_D(2) [OF W] by linarith
  ultimately have r2: "is_double (2 * r)" by (simp add: is_double_iff)
  then have m2: "to_double (2 * r) = Num (2 * r)" by (rule is_double_D(3))
  have "0 \<le> 2 * r" using r(2) by simp
  then obtain d t where dt: "to_double (W - 2 * r) = Num d" "to_double (v * d) = Num t"
    "0 \<le> t" "t \<le> W - 2 * r"
    using to_double_scaled_difference [OF W r2 _ r(3) v] by blast
  have tr: "0 \<le> t + r" "t + r \<le> W - r" using dt(3,4) r(2) by simp_all
  have wr0: "0 \<le> W - r" "W - r \<le> W" using r(2,3) by simp_all
  obtain wr where wr: "to_double (W - r) = Num wr" "wr \<le> W"
    using to_double_bounded [OF wr0 W] by blast
  have "t + r \<le> W" using tr(2) wr0(2) by linarith
  then obtain x where x: "to_double (t + r) = Num x" "is_double x"
    using to_double_bounded [OF tr(1) _ W] by blast
  have "r \<le> x" using x(1) r(1,2) by (rule to_double_at_least) (use dt(3) in simp)
  moreover have "x \<le> wr" using tr x(1) wr(1) by (rule to_double_mono)
  moreover have "drawn_center W (Num r) v = Num x"
    by (simp add: drawn_center_def m2 dt(1,2) x(1))
  moreover have "js_sub (Num W) (Num r) = Num wr" by (simp add: wr(1))
  ultimately show ?thesis using x(2) wr(2) by blast
qed

text \<open>
  When the function returns, each of the first \<open>NUM_CIRCLES\<close> records was generated,
  and the array holds its components rounded to binary32.
\<close>

lemma generate_returned_records:
  assumes "generateCircleUniformData random numCircles limits dims = Inr out"
    and "i < NUM_CIRCLES"
  shows "i < length (circlesGenerated random numCircles limits dims)"
    and "out ! (3 * i) = fround (circle_x (circlesGenerated random numCircles limits dims ! i))"
    and "out ! (3 * i + 1) = fround (circle_y (circlesGenerated random numCircles limits dims ! i))"
    and "out ! (3 * i + 2) = fround (circle_r (circlesGenerated random numCircles limits dims ! i))"
proof -
  let ?cs = "circlesGenerated random numCircles limits dims"
  have n: "int NUM_CIRCLES \<le> numCircles"
  proof (rule ccontr)
    assume "\<not> int NUM_CIRCLES \<le> numCircles"
    then have "numCircles < int NUM_CIRCLES" by simp
    from generate_throws [OF this] assms(1) show False by simp
  qed
  from generate_returns [OF n, of random limits dims] assms(1)
  have len: "length out = nat (3 * numCircles)"
    and ent: "\<forall>j<length out. out ! j =
                 (if j < 3 * NUM_CIRCLES then fround (component (?cs ! (j div 3)) (j mod 3)) else Num 0)"
    by auto
  show "i < length ?cs" using n assms(2) by (simp add: length_circlesGenerated)
  have i3: "3 * i + 2 < length out" "3 * i + 2 < 3 * NUM_CIRCLES"
    using n assms(2) len by simp_all
  have "3 * i < length out" "3 * i < 3 * NUM_CIRCLES" using i3 by simp_all
  then show "out ! (3 * i) = fround (circle_x (?cs ! i))"
    using ent by (simp add: component_def)
  have "3 * i + 1 < length out" "3 * i + 1 < 3 * NUM_CIRCLES" using i3 by simp_all
  moreover have "(3 * i + 1) div 3 = i" "(3 * i + 1) mod 3 = 1" by presburger+
  ultimately show "out ! (3 * i + 1) = fround (circle_y (?cs ! i))"
    using ent by (simp add: component_def)
  have "(3 * i + 2) div 3 = i" "(3 * i + 2) mod 3 = 2" by presburger+
  then show "out ! (3 * i + 2) = fround (circle_r (?cs ! i))"
    using ent i3 by (simp add: component_def)
qed

text \<open>
  C3, as stated, asks only for \<open>radiusLimits.max < radiusLimits.min\<close>, both positive,
  and gives \<open>minRadius \<le> radius \<le> maxRadius\<close> and \<open>radius > 0\<close> for every record.
  That is not enough for \<open>radius > 0\<close>: on a canvas of width and height 0 (a hidden
  canvas) the size limit is 0, both radius bounds are 0 and every radius is 0. Nor does
  the lower bound hold of the records returned, which are stored in a
  \<^verbatim>\<open>Float32Array\<close>: with the limits \<^verbatim>\<open>{min: 50, max: 4}\<close> of circles.js on a canvas
  of 1280 by 720, \<open>minRadius\<close> is the double nearest to 14.4,
  \<open>8106479329266893 / 2\<^sup>4\<^sup>9\<close>; when every draw is 0 the radius generated is
  \<open>minRadius\<close>, and the radius returned is \<open>15099494 / 2\<^sup>2\<^sup>0\<close>, which is smaller.
\<close>

theorem radius_not_within_limits:
  "circlesGenerated every_draw_half 12 \<lparr>min_lim = 50, max_lim = 4\<rparr> \<lparr>width = 0, height = 0\<rparr>
       = replicate 12 \<lparr> circle_x = Num 0, circle_y = Num 0, circle_r = Num 0 \<rparr>
   \<and> MIN_RADIUS \<lparr>min_lim = 50, max_lim = 4\<rparr> \<lparr>width = 1280, height = 720\<rparr>
       = Num (8106479329266893 / 562949953421312)
   \<and> (\<exists>out. generateCircleUniformData every_draw_zero 12 \<lparr>min_lim = 50, max_lim = 4\<rparr>
                \<lparr>width = 1280, height = 720\<rparr> = Inr out
          \<and> out ! 2 = Num (15099494 / 1048576))
   \<and> (15099494 / 1048576 :: real) < 8106479329266893 / 562949953421312"
proof -
  let ?L = "\<lparr>min_lim = 50, max_lim = 4\<rparr>"
  let ?D = "\<lparr>width = 1280, height = 720\<rparr>"
  let ?mn = "8106479329266893 / 562949953421312 :: real"
  let ?cs = "circlesGenerated every_draw_zero 12 ?L ?D"
  have zero: "circlesGenerated every_draw_half 12 ?L \<lparr>width = 0, height = 0\<rparr>
       = replicate 12 \<lparr> circle_x = Num 0, circle_y = Num 0, circle_r = Num 0 \<rparr>"
    by (simp add: circlesGenerated_every_draw_half drawn_center_def drawn_radius_def
          MAX_RADIUS_def MIN_RADIUS_def js_div_def sizeLimit_def to_double_half_integer)
  have q: "to_double (720 / 50) = Num ?mn"
    using round_to_eval [of 3 "720 / 50" "- 1022" 53]
    by (simp add: to_double_eq double_limit_def round_half_even_def)
  have mn: "MIN_RADIUS ?L ?D = Num ?mn"
    using q by (simp add: MIN_RADIUS_def js_div_def sizeLimit_def)
  have mx: "MAX_RADIUS ?L ?D = Num 180"
    by (simp add: MAX_RADIUS_def js_div_def sizeLimit_def to_double_half_integer)
  have dmn: "is_double ?mn" using q by (rule to_double_is_double)
  have "is_double 180" by (rule is_double_half_integer) simp_all
  then obtain d where d: "to_double (180 - ?mn) = Num d"
    using to_double_bounded [of "180 - ?mn" 180] by auto
  have r: "drawn_radius (MAX_RADIUS ?L ?D) (MIN_RADIUS ?L ?D) 0 = Num ?mn"
    unfolding mn mx drawn_radius_def using d is_double_D(3) [OF dmn]
    by (simp add: to_double_half_integer)
  have "\<forall>c\<in>set ?cs. circle_r c = Num ?mn"
    by (rule circlesGenerated_all) (simp add: every_draw_zero_def r)
  moreover have "?cs ! 0 \<in> set ?cs" by (simp add: length_circlesGenerated)
  ultimately have r0: "circle_r (?cs ! 0) = Num ?mn" by blast
  have f: "to_float32 ?mn = Num (15099494 / 1048576)"
    using round_to_eval [of 3 ?mn "- 126" 24]
    by (simp add: to_float32_eq float32_limit_def round_half_even_def)
  obtain out where out: "generateCircleUniformData every_draw_zero 12 ?L ?D = Inr out"
    using generate_returns [of 12 every_draw_zero ?L ?D] by (auto simp: NUM_CIRCLES_def)
  have "out ! 2 = fround (circle_r (?cs ! 0))"
    using generate_returned_records(4) [OF out, of 0] by (simp add: NUM_CIRCLES_def numeral_2_eq_2)
  then have "out ! 2 = Num (15099494 / 1048576)" by (simp add: r0 f)
  moreover have "(15099494 / 1048576 :: real) < ?mn" by simp
  ultimately show ?thesis using zero mn out by blast
qed

text \<open>
  C3, amended. With \<open>sizeLimit\<close> the smaller of the canvas width and height, the
  radius bounds are \<open>maxRadius = sizeLimit / radiusLimits.max\<close> and
  \<open>minRadius = sizeLimit / radiusLimits.min\<close>, each quotient rounded to a double (the
  larger divisor gives the smaller radius). Assume that
  \<open>radiusLimits.max < radiusLimits.min\<close>, both positive, that the canvas width and
  height are positive, that the exact quotients lie between \<open>2\<^sup>-\<^sup>1\<^sup>2\<^sup>6\<close> and \<open>2\<^sup>1\<^sup>2\<^sup>7\<close>, and
  that every draw is a double in [0, 1). Then both bounds are finite with
  \<open>0 < minRadius \<le> maxRadius\<close>; every generated record has
  \<open>minRadius \<le> radius \<le> maxRadius\<close> and \<open>radius > 0\<close>; and whenever the function
  returns, the radius stored for each of the first \<open>NUM_CIRCLES\<close> records is positive
  and lies between \<open>minRadius\<close> and \<open>maxRadius\<close> rounded to binary32.
\<close>

theorem radius_within_limits:
  assumes "\<forall>k. is_double (random k) \<and> 0 \<le> random k \<and> random k < 1"
    and "0 < max_lim radiusLimits" and "max_lim radiusLimits < min_lim radiusLimits"
    and "0 < width canvasDimensions" and "0 < height canvasDimensions"
    and "1 / 2 ^ 126 \<le> sizeLimit canvasDimensions / min_lim radiusLimits"
    and "sizeLimit canvasDimensions / max_lim radiusLimits \<le> 2 ^ 127"
  shows "\<exists>minRadius maxRadius minStored maxStored.
      sizeLimit canvasDimensions = min (width canvasDimensions) (height canvasDimensions)
    \<and> MAX_RADIUS radiusLimits canvasDimensions
        = to_double (sizeLimit canvasDimensions / max_lim radiusLimits)
    \<and> MIN_RADIUS radiusLimits canvasDimensions
        = to_double (sizeLimit canvasDimensions / min_lim radiusLimits)
    \<and> MAX_RADIUS radiusLimits canvasDimensions = Num maxRadius
    \<and> MIN_RADIUS radiusLimits canvasDimensions = Num minRadius
    \<and> 0 < minRadius \<and> minRadius \<le> maxRadius
    \<and> (\<forall>c\<in>set (circlesGenerated random numCircles radiusLimits canvasDimensions).
          \<exists>radius. circle_r c = Num radius
            \<and> minRadius \<le> radius \<and> radius \<le> maxRadius \<and> 0 < radius)
    \<and> fround (Num minRadius) = Num minStored \<and> fround (Num maxRadius) = Num maxStored
    \<and> 0 < minStored
    \<and> (\<forall>out. generateCircleUniformData random numCircles radiusLimits canvasDimensions = Inr out
          \<longrightarrow> (\<forall>i<NUM_CIRCLES. \<exists>radius. out ! (3 * i + 2) = Num radius
                 \<and> minStored \<le> radius \<and> radius \<le> maxStored \<and> 0 < radius))"
proof -
  let ?s = "sizeLimit canvasDimensions"
  let ?A = "?s / max_lim radiusLimits"
  let ?B = "?s / min_lim radiusLimits"
  let ?cs = "circlesGenerated random numCircles radiusLimits canvasDimensions"
  have s: "?s = min (width canvasDimensions) (height canvasDimensions)"
    by (simp add: sizeLimit_def min_def)
  have spos: "0 < ?s" using assms(4,5) by (simp add: sizeLimit_def)
  have minpos: "0 < min_lim radiusLimits" using assms(2,3) by linarith
  have mxd: "MAX_RADIUS radiusLimits canvasDimensions = to_double ?A"
    using assms(2) by (simp add: MAX_RADIUS_def js_div_def)
  have mnd: "MIN_RADIUS radiusLimits canvasDimensions = to_double ?B"
    using minpos by (simp add: MIN_RADIUS_def js_div_def)
  have lt: "?B \<le> ?A"
    using spos assms(2,3) by (intro divide_left_mono) simp_all
  have B0: "0 \<le> ?B" using spos minpos by simp
  have A0: "0 \<le> ?A" using B0 lt by linarith
  obtain mx where mx: "to_double ?A = Num mx" "mx \<le> 2 ^ 127" "is_double mx"
    using to_double_bounded [OF A0 assms(7) is_double_pow127] by blast
  have "?B \<le> 2 ^ 127" using lt assms(7) by linarith
  then obtain mn where mn: "to_double ?B = Num mn" "is_double mn"
    using to_double_bounded [OF B0 _ is_double_pow127] by blast
  have mn1: "1 / 2 ^ 126 \<le> mn"
    using mn(1) is_double_inv126 _ assms(6) by (rule to_double_at_least) simp
  have mnpos: "0 < mn"
  proof -
    have "(0 :: real) < 1 / 2 ^ 126" by simp
    then show ?thesis using mn1 by linarith
  qed
  have mnmx: "mn \<le> mx" using B0 lt mn(1) mx(1) by (rule to_double_mono)
  have mx0: "0 \<le> mx" and mn0: "0 \<le> mn" using mnpos mnmx by simp_all
  obtain mx32 where mx32: "to_float32 mx = Num mx32"
    using to_float32_bounded [OF mx0 mx(2) is_float32_pow127] by blast
  have "mn \<le> 2 ^ 127" using mnmx mx(2) by linarith
  then obtain mn32 where mn32: "to_float32 mn = Num mn32"
    using to_float32_bounded [OF mn0 _ is_float32_pow127] by blast
  have mn32pos: "0 < mn32"
  proof -
    have "1 / 2 ^ 126 \<le> mn32"
      using mn32 is_float32_inv126 _ mn1 by (rule to_float32_at_least) simp
    moreover have "(0 :: real) < 1 / 2 ^ 126" by simp
    ultimately show ?thesis by linarith
  qed
  have gen: "\<forall>c\<in>set ?cs. \<exists>radius. circle_r c = Num radius \<and> mn \<le> radius \<and> radius \<le> mx \<and> 0 < radius"
  proof (rule circlesGenerated_all)
    fix k
    have u: "is_double (random k)" "0 \<le> random k" "random k < 1"
      using assms(1) [rule_format, of k] by simp_all
    from drawn_radius_ordered [OF mx(3) mn(2) mn0 mnmx u]
    obtain radius where r: "drawn_radius (Num mx) (Num mn) (random k) = Num radius"
      "mn \<le> radius" "radius \<le> mx" by blast
    have "0 < radius" using r(2) mnpos by linarith
    then show "\<exists>radius. circle_r \<lparr> circle_x = drawn_center (width canvasDimensions)
                              (drawn_radius (MAX_RADIUS radiusLimits canvasDimensions) (MIN_RADIUS radiusLimits canvasDimensions) (random k))
                              (random (k + 1)),
                  circle_y = drawn_center (height canvasDimensions)
                              (drawn_radius (MAX_RADIUS radiusLimits canvasDimensions) (MIN_RADIUS radiusLimits canvasDimensions) (random k))
                              (random (k + 2)),
                  circle_r = drawn_radius (MAX_RADIUS radiusLimits canvasDimensions) (MIN_RADIUS radiusLimits canvasDimensions) (random k) \<rparr> = Num radius
           \<and> mn \<le> radius \<and> radius \<le> mx \<and> 0 < radius"
      using r by (simp add: mxd mnd mx(1) mn(1))
  qed
  have ret: "\<forall>out. generateCircleUniformData random numCircles radiusLimits canvasDimensions = Inr out
          \<longrightarrow> (\<forall>i<NUM_CIRCLES. \<exists>radius. out ! (3 * i + 2) = Num radius
                 \<and> mn32 \<le> radius \<and> radius \<le> mx32 \<and> 0 < radius)"
  proof (intro allI impI)
    fix out i
    assume out: "generateCircleUniformData random numCircles radiusLimits canvasDimensions = Inr out"
      and i: "i < NUM_CIRCLES"
    have "?cs ! i \<in> set ?cs"
      using generate_returned_records(1) [OF out i] by simp
    then obtain r where r: "circle_r (?cs ! i) = Num r" "mn \<le> r" "r \<le> mx"
      using gen by blast
    have r0: "0 \<le> r" using r(2) mnpos by linarith
    have "r \<le> 2 ^ 127" using r(3) mx(2) by linarith
    then obtain r32 where r32: "to_float32 r = Num r32"
      using to_float32_bounded [OF r0 _ is_float32_pow127] by blast
    have lo: "mn32 \<le> r32" using mn0 r(2) mn32 r32 by (rule to_float32_mono)
    have hi: "r32 \<le> mx32" using r0 r(3) r32 mx32 by (rule to_float32_mono)
    have "out ! (3 * i + 2) = Num r32"
      using generate_returned_records(4) [OF out i] by (simp add: r(1) r32)
    then show "\<exists>radius. out ! (3 * i + 2) = Num radius
                 \<and> mn32 \<le> radius \<and> radius \<le> mx32 \<and> 0 < radius"
      using lo hi mn32pos by auto
  qed
  show ?thesis
    using s mxd mnd mx(1) mn(1) mnpos mnmx gen mn32 mx32 mn32pos ret
    by (intro exI [of _ mn] exI [of _ mx] exI [of _ mn32] exI [of _ mx32]) simp
qed

text \<open>
  The amended C3 at radius limits \<^verbatim>\<open>{min: 50, max: 4}\<close>, a canvas of 100 by 100, twelve
  circles and every draw one half: the bounds are 2 and 25, every radius generated is
  13.5, and so is the first radius returned.
\<close>

theorem radius_within_limits_witness:
  "(\<forall>k. is_double (every_draw_half k) \<and> 0 \<le> every_draw_half k \<and> every_draw_half k < 1)
   \<and> MAX_RADIUS \<lparr>min_lim = 50, max_lim = 4\<rparr> \<lparr>width = 100, height = 100\<rparr> = Num 25
   \<and> MIN_RADIUS \<lparr>min_lim = 50, max_lim = 4\<rparr> \<lparr>width = 100, height = 100\<rparr> = Num 2
   \<and> circlesGenerated every_draw_half 12 \<lparr>min_lim = 50, max_lim = 4\<rparr> \<lparr>width = 100, height = 100\<rparr>
       = replicate 12 \<lparr> circle_x = Num 50, circle_y = Num 50, circle_r = Num (27 / 2) \<rparr>
   \<and> fround (Num 2) = Num 2 \<and> fround (Num 25) = Num 25
   \<and> (\<exists>out radius. generateCircleUniformData every_draw_half 12 \<lparr>min_lim = 50, max_lim = 4\<rparr>
                \<lparr>width = 100, height = 100\<rparr> = Inr out
          \<and> out ! 2 = Num radius \<and> 2 \<le> radius \<and> radius \<le> 25 \<and> 0 < radius)"
proof -
  let ?L = "\<lparr>min_lim = 50, max_lim = 4\<rparr>"
  let ?D = "\<lparr>width = 100, height = 100\<rparr>"
  have draws: "\<forall>k. is_double (every_draw_half k) \<and> 0 \<le> every_draw_half k \<and> every_draw_half k < 1"
    by (simp add: every_draw_half_def)
  have mx: "MAX_RADIUS ?L ?D = Num 25" and mn: "MIN_RADIUS ?L ?D = Num 2"
    by (simp_all add: MAX_RADIUS_def MIN_RADIUS_def js_div_def sizeLimit_def to_double_half_integer)
  have cs: "circlesGenerated every_draw_half 12 ?L ?D
       = replicate 12 \<lparr> circle_x = Num 50, circle_y = Num 50, circle_r = Num (27 / 2) \<rparr>"
    by (simp add: circlesGenerated_every_draw_half drawn_center_def drawn_radius_def mx mn
          to_double_half_integer)
  have st: "fround (Num 2) = Num 2" "fround (Num 25) = Num 25"
    by (simp_all add: to_float32_half_integer)
  obtain out where out: "generateCircleUniformData every_draw_half 12 ?L ?D = Inr out"
    using generate_returns [of 12 every_draw_half ?L ?D] by (auto simp: NUM_CIRCLES_def)
  have hyp: "0 < max_lim ?L" "max_lim ?L < min_lim ?L" "0 < width ?D" "0 < height ?D"
    "1 / 2 ^ 126 \<le> sizeLimit ?D / min_lim ?L" "sizeLimit ?D / max_lim ?L \<le> 2 ^ 127"
    by (simp_all add: sizeLimit_def)
  from radius_within_limits [OF draws hyp, of 12]
  obtain minRadius maxRadius minStored maxStored where
    t: "MAX_RADIUS ?L ?D = Num maxRadius" "MIN_RADIUS ?L ?D = Num minRadius"
      "fround (Num minRadius) = Num minStored" "fround (Num maxRadius) = Num maxStored"
      "\<forall>out. generateCircleUniformData every_draw_half 12 ?L ?D = Inr out
          \<longrightarrow> (\<forall>i<NUM_CIRCLES. \<exists>radius. out ! (3 * i + 2) = Num radius
                 \<and> minStored \<le> radius \<and> radius \<le> maxStored \<and> 0 < radius)"
    by blast
  have "maxRadius = 25" "minRadius = 2" using t(1,2) mx mn by simp_all
  then have "maxStored = 25" "minStored = 2" using t(3,4) st by simp_all
  moreover have "0 < NUM_CIRCLES" by (simp add: NUM_CIRCLES_def)
  ultimately have "\<exists>radius. out ! (3 * 0 + 2) = Num radius \<and> 2 \<le> radius \<and> radius \<le> 25 \<and> 0 < radius"
    using t(5) [rule_format, OF out, of 0] by blast
  then have "\<exists>radius. out ! 2 = Num radius \<and> 2 \<le> radius \<and> radius \<le> 25 \<and> 0 < radius"
    by (simp add: numeral_2_eq_2)
  then show ?thesis using draws mx mn cs st out by blast
qed

text \<open>
  One round in full, on a canvas of 1280 by 720 with radius limits
  \<^verbatim>\<open>{min: 2, max: 4}\<close> and every draw the largest double below 1: the radius is
  \<open>180 + 2\<^sup>-\<^sup>4\<^sup>5\<close> and x is 1100.
\<close>

lemma largest_draw_record:
  "circle_x (circlesGenerated every_draw_largest 12 \<lparr>min_lim = 2, max_lim = 4\<rparr>
               \<lparr>width = 1280, height = 720\<rparr> ! 0) = Num 1100
   \<and> circle_r (circlesGenerated every_draw_largest 12 \<lparr>min_lim = 2, max_lim = 4\<rparr>
               \<lparr>width = 1280, height = 720\<rparr> ! 0) = Num (6333186975989761 / 35184372088832)"
proof -
  let ?L = "\<lparr>min_lim = 2, max_lim = 4\<rparr>"
  let ?D = "\<lparr>width = 1280, height = 720\<rparr>"
  let ?cs = "circlesGenerated every_draw_largest 12 ?L ?D"
  let ?c = "9007199254740991 / 9007199254740992 :: real"
  let ?r = "6333186975989761 / 35184372088832 :: real"
  have mx: "MAX_RADIUS ?L ?D = Num 180" and mn: "MIN_RADIUS ?L ?D = Num 360"
    by (simp_all add: MAX_RADIUS_def MIN_RADIUS_def js_div_def sizeLimit_def to_double_half_integer)
  have d: "to_double (180 - 360) = Num (- 180)"
    by (simp add: to_double_half_integer)
  have t: "to_double (?c * - 180) = Num (- (6333186975989759 / 35184372088832))"
    using round_to_eval [of 7 "?c * - 180" "- 1022" 53]
    by (simp add: to_double_eq double_limit_def round_half_even_def)
  have r: "to_double (- (6333186975989759 / 35184372088832) + 360) = Num ?r"
    using round_to_eval [of 7 "- (6333186975989759 / 35184372088832) + 360" "- 1022" 53]
    by (simp add: to_double_eq double_limit_def round_half_even_def)
  have r2: "to_double (2 * ?r) = Num (6333186975989761 / 17592186044416)"
    using round_to_eval [of 8 "2 * ?r" "- 1022" 53]
    by (simp add: to_double_eq double_limit_def round_half_even_def)
  have e: "to_double (1280 - 6333186975989761 / 17592186044416) = Num 920"
    using round_to_eval [of 9 "1280 - 6333186975989761 / 17592186044416" "- 1022" 53]
    by (simp add: to_double_eq double_limit_def round_half_even_def)
  have t2: "to_double (?c * 920) = Num (8092405580431359 / 8796093022208)"
    using round_to_eval [of 9 "?c * 920" "- 1022" 53]
    by (simp add: to_double_eq double_limit_def round_half_even_def)
  have x: "to_double (8092405580431359 / 8796093022208 + ?r) = Num 1100"
    using round_to_eval [of 10 "8092405580431359 / 8796093022208 + ?r" "- 1022" 53]
    by (simp add: to_double_eq double_limit_def round_half_even_def)
  have c: "every_draw_largest k = ?c" for k by (simp add: every_draw_largest_def)
  have rad: "drawn_radius (Num 180) (Num 360) ?c = Num ?r"
    unfolding drawn_radius_def js_sub.simps d js_mul.simps t js_add.simps r ..
  have cen: "drawn_center 1280 (Num ?r) ?c = Num 1100"
    unfolding drawn_center_def js_mul.simps r2 js_sub.simps e t2 js_add.simps x ..
  have "\<forall>c\<in>set ?cs. circle_x c = Num 1100 \<and> circle_r c = Num ?r"
    by (rule circlesGenerated_all) (simp add: c mx mn rad cen)
  moreover have "?cs ! 0 \<in> set ?cs" by (simp add: length_circlesGenerated)
  ultimately show ?thesis by blast
qed

text \<open>
  C4, as stated, holds for all canvas dimensions and radius limits the function
  accepts; the function accepts all of them. With radius limits
  \<^verbatim>\<open>{min: 2, max: 1}\<close> on a canvas of 100 by 100 the radii run from 50 to 100; with
  every draw one half the radius is 75 and the centre is (50, 50), so \<open>r \<le> x\<close> fails
  and the circle leaves the canvas on every side. And with both divisors 2 on a canvas
  of 33554435 by 33554435 every component generated is 16777217.5, which the
  \<^verbatim>\<open>Float32Array\<close> stores as 16777218: in the record returned
  \<open>x \<le> canvasWidth - r\<close> fails, 16777218 against 16777217. The records generated
  are rounded too: on a canvas of 1280 by 720 with radius limits \<^verbatim>\<open>{min: 2, max: 4}\<close>
  and every draw the largest double below 1, the radius is \<open>180 + 2\<^sup>-\<^sup>4\<^sup>5\<close> and x is
  1100, above \<open>canvasWidth - r = 1100 - 2\<^sup>-\<^sup>4\<^sup>5\<close>.
\<close>

theorem bounding_box_not_in_canvas:
  "circlesGenerated every_draw_half 12 \<lparr>min_lim = 2, max_lim = 1\<rparr> \<lparr>width = 100, height = 100\<rparr>
       = replicate 12 \<lparr> circle_x = Num 50, circle_y = Num 50, circle_r = Num 75 \<rparr>
   \<and> \<not> (75 :: real) \<le> 50
   \<and> circlesGenerated every_draw_half 12 \<lparr>min_lim = 2, max_lim = 2\<rparr>
         \<lparr>width = 33554435, height = 33554435\<rparr>
       = replicate 12 \<lparr> circle_x = Num (33554435 / 2), circle_y = Num (33554435 / 2),
                         circle_r = Num (33554435 / 2) \<rparr>
   \<and> (\<exists>out. generateCircleUniformData every_draw_half 12 \<lparr>min_lim = 2, max_lim = 2\<rparr>
                \<lparr>width = 33554435, height = 33554435\<rparr> = Inr out
          \<and> out ! 0 = Num 16777218 \<and> out ! 1 = Num 16777218 \<and> out ! 2 = Num 16777218)
   \<and> \<not> (16777218 :: real) \<le> 33554435 - 16777218
   \<and> circle_x (circlesGenerated every_draw_largest 12 \<lparr>min_lim = 2, max_lim = 4\<rparr>
               \<lparr>width = 1280, height = 720\<rparr> ! 0) = Num 1100
   \<and> circle_r (circlesGenerated every_draw_largest 12 \<lparr>min_lim = 2, max_lim = 4\<rparr>
               \<lparr>width = 1280, height = 720\<rparr> ! 0) = Num (6333186975989761 / 35184372088832)
   \<and> \<not> (1100 :: real) \<le> 1280 - 6333186975989761 / 35184372088832"
proof -
  let ?L = "\<lparr>min_lim = 2, max_lim = 2\<rparr>"
  let ?D = "\<lparr>width = 33554435, height = 33554435\<rparr>"
  let ?c = "\<lparr> circle_x = Num (33554435 / 2), circle_y = Num (33554435 / 2),
              circle_r = Num (33554435 / 2) \<rparr>"
  have big: "circlesGenerated every_draw_half 12 \<lparr>min_lim = 2, max_lim = 1\<rparr> \<lparr>width = 100, height = 100\<rparr>
       = replicate 12 \<lparr> circle_x = Num 50, circle_y = Num 50, circle_r = Num 75 \<rparr>"
    by (simp add: circlesGenerated_every_draw_half drawn_center_def drawn_radius_def
          MAX_RADIUS_def MIN_RADIUS_def js_div_def sizeLimit_def to_double_half_integer)
  have cs: "circlesGenerated every_draw_half 12 ?L ?D = replicate 12 ?c"
    by (simp add: circlesGenerated_every_draw_half drawn_center_def drawn_radius_def
          MAX_RADIUS_def MIN_RADIUS_def js_div_def sizeLimit_def to_double_half_integer)
  have f: "to_float32 (33554435 / 2) = Num 16777218"
    using round_to_eval [of 24 "33554435 / 2" "- 126" 24]
    by (simp add: to_float32_eq float32_limit_def round_half_even_def)
  obtain out where out: "generateCircleUniformData every_draw_half 12 ?L ?D = Inr out"
    using generate_returns [of 12 every_draw_half ?L ?D] by (auto simp: NUM_CIRCLES_def)
  have "out ! 0 = Num 16777218"
    using generate_returned_records(2) [OF out, of 0] by (simp add: NUM_CIRCLES_def cs f)
  moreover have "out ! 1 = Num 16777218"
    using generate_returned_records(3) [OF out, of 0] by (simp add: NUM_CIRCLES_def cs f)
  moreover have "out ! 2 = Num 16777218"
    using generate_returned_records(4) [OF out, of 0]
    by (simp add: NUM_CIRCLES_def cs f numeral_2_eq_2)
  ultimately show ?thesis using big cs out largest_draw_record by simp
qed

text \<open>
  C4, amended. Assume that both radius divisors are at least 2 (so that no radius
  exceeds half the size limit), that the canvas width and height are doubles from 0 to
  \<open>2\<^sup>1\<^sup>2\<^sup>7\<close>, that half the size limit is a double (as it is for every whole number of
  pixels up to \<open>2\<^sup>5\<^sup>3\<close>), and that every draw is a double in [0, 1). Then every
  generated record (x, y, r) has finite components with \<open>0 \<le> r\<close>,
  \<open>r \<le> x \<le> canvasWidth - r \<le> canvasWidth\<close> and
  \<open>r \<le> y \<le> canvasHeight - r \<le> canvasHeight\<close>, where each difference is the one the
  program's arithmetic gives, rounded to a double. Whenever the function returns, the
  components (x, y, r) stored for each of the first \<open>NUM_CIRCLES\<close> records are finite
  with \<open>0 \<le> r\<close>, \<open>r \<le> x\<close>, \<open>r \<le> y\<close>, and x and y do not exceed the rounded
  differences \<open>canvasWidth - r\<close> and \<open>canvasHeight - r\<close> of the generated record,
  rounded to binary32.
\<close>

theorem bounding_box_in_canvas:
  assumes "\<forall>k. is_double (random k) \<and> 0 \<le> random k \<and> random k < 1"
    and "2 \<le> max_lim radiusLimits" and "2 \<le> min_lim radiusLimits"
    and "is_double (width canvasDimensions)" and "is_double (height canvasDimensions)"
    and "0 \<le> width canvasDimensions" and "0 \<le> height canvasDimensions"
    and "width canvasDimensions \<le> 2 ^ 127" and "height canvasDimensions \<le> 2 ^ 127"
    and "is_double (sizeLimit canvasDimensions / 2)"
  shows "(\<forall>c\<in>set (circlesGenerated random numCircles radiusLimits canvasDimensions).
          \<exists>x y r xmax ymax. c = \<lparr> circle_x = Num x, circle_y = Num y, circle_r = Num r \<rparr>
            \<and> js_sub (Num (width canvasDimensions)) (Num r) = Num xmax
            \<and> js_sub (Num (height canvasDimensions)) (Num r) = Num ymax
            \<and> 0 \<le> r \<and> r \<le> x \<and> x \<le> xmax \<and> xmax \<le> width canvasDimensions
            \<and> r \<le> y \<and> y \<le> ymax \<and> ymax \<le> height canvasDimensions)
    \<and> (\<forall>out. generateCircleUniformData random numCircles radiusLimits canvasDimensions = Inr out
          \<longrightarrow> (\<forall>i<NUM_CIRCLES. \<exists>x y r xmax ymax.
                 out ! (3 * i) = Num x \<and> out ! (3 * i + 1) = Num y \<and> out ! (3 * i + 2) = Num r
               \<and> fround (js_sub (Num (width canvasDimensions))
                    (circle_r (circlesGenerated random numCircles radiusLimits canvasDimensions ! i)))
                   = Num xmax
               \<and> fround (js_sub (Num (height canvasDimensions))
                    (circle_r (circlesGenerated random numCircles radiusLimits canvasDimensions ! i)))
                   = Num ymax
               \<and> 0 \<le> r \<and> r \<le> x \<and> x \<le> xmax \<and> r \<le> y \<and> y \<le> ymax))"
proof -
  let ?W = "width canvasDimensions"
  let ?H = "height canvasDimensions"
  let ?s = "sizeLimit canvasDimensions"
  let ?A = "?s / max_lim radiusLimits"
  let ?B = "?s / min_lim radiusLimits"
  let ?cs = "circlesGenerated random numCircles radiusLimits canvasDimensions"
  have s0: "0 \<le> ?s" using assms(6,7) by (simp add: sizeLimit_def)
  have sw: "?s \<le> ?W" and sh: "?s \<le> ?H"
    by (simp_all add: sizeLimit_def)
  have mxd: "MAX_RADIUS radiusLimits canvasDimensions = to_double ?A"
    using assms(2) by (simp add: MAX_RADIUS_def js_div_def)
  have mnd: "MIN_RADIUS radiusLimits canvasDimensions = to_double ?B"
    using assms(3) by (simp add: MIN_RADIUS_def js_div_def)
  have A: "?A \<le> ?s / 2" using s0 assms(2) by (intro divide_left_mono) simp_all
  have B: "?B \<le> ?s / 2" using s0 assms(3) by (intro divide_left_mono) simp_all
  have A0: "0 \<le> ?A" using s0 assms(2) by simp
  have B0: "0 \<le> ?B" using s0 assms(3) by simp
  obtain mx where mx: "to_double ?A = Num mx" "0 \<le> mx" "mx \<le> ?s / 2" "is_double mx"
    using to_double_bounded [OF A0 A assms(10)] by blast
  obtain mn where mn: "to_double ?B = Num mn" "0 \<le> mn" "mn \<le> ?s / 2" "is_double mn"
    using to_double_bounded [OF B0 B assms(10)] by blast
  have gen: "\<forall>c\<in>set ?cs.
          \<exists>x y r xmax ymax. c = \<lparr> circle_x = Num x, circle_y = Num y, circle_r = Num r \<rparr>
            \<and> js_sub (Num ?W) (Num r) = Num xmax \<and> js_sub (Num ?H) (Num r) = Num ymax
            \<and> 0 \<le> r \<and> r \<le> x \<and> x \<le> xmax \<and> xmax \<le> ?W
            \<and> r \<le> y \<and> y \<le> ymax \<and> ymax \<le> ?H"
  proof (rule circlesGenerated_all)
    fix k
    have u: "is_double (random k)" "0 \<le> random k" "random k < 1"
      using assms(1) [rule_format, of k] by simp_all
    have u1: "is_double (random (k + 1))" "0 \<le> random (k + 1)" "random (k + 1) < 1"
      using assms(1) [rule_format, of "k + 1"] by simp_all
    have u2: "is_double (random (k + 2))" "0 \<le> random (k + 2)" "random (k + 2) < 1"
      using assms(1) [rule_format, of "k + 2"] by simp_all
    from drawn_radius_le [OF mx(4) mn(4) mx(2) mn(2) mx(3) mn(3) u]
    obtain r where r: "drawn_radius (Num mx) (Num mn) (random k) = Num r"
      "is_double r" "0 \<le> r" "r \<le> ?s / 2" by blast
    have "2 * r \<le> ?W" using r(4) sw by linarith
    from drawn_center_between [OF assms(4) r(2,3) this u1]
    obtain x xmax where x: "drawn_center ?W (Num r) (random (k + 1)) = Num x"
      "js_sub (Num ?W) (Num r) = Num xmax" "r \<le> x" "x \<le> xmax" "xmax \<le> ?W" by blast
    have "2 * r \<le> ?H" using r(4) sh by linarith
    from drawn_center_between [OF assms(5) r(2,3) this u2]
    obtain y ymax where y: "drawn_center ?H (Num r) (random (k + 2)) = Num y"
      "js_sub (Num ?H) (Num r) = Num ymax" "r \<le> y" "y \<le> ymax" "ymax \<le> ?H" by blast
    have "\<lparr> circle_x = drawn_center ?W
                              (drawn_radius (MAX_RADIUS radiusLimits canvasDimensions) (MIN_RADIUS radiusLimits canvasDimensions) (random k))
                              (random (k + 1)),
                  circle_y = drawn_center ?H
                              (drawn_radius (MAX_RADIUS radiusLimits canvasDimensions) (MIN_RADIUS radiusLimits canvasDimensions) (random k))
                              (random (k + 2)),
                  circle_r = drawn_radius (MAX_RADIUS radiusLimits canvasDimensions) (MIN_RADIUS radiusLimits canvasDimensions) (random k) \<rparr>
              = \<lparr> circle_x = Num x, circle_y = Num y, circle_r = Num r \<rparr>"
      using x(1) y(1) by (simp add: mxd mnd mx(1) mn(1) r(1))
    then show "\<exists>x y r xmax ymax. \<lparr> circle_x = drawn_center ?W
                              (drawn_radius (MAX_RADIUS radiusLimits canvasDimensions) (MIN_RADIUS radiusLimits canvasDimensions) (random k))
                              (random (k + 1)),
                  circle_y = drawn_center ?H
                              (drawn_radius (MAX_RADIUS radiusLimits canvasDimensions) (MIN_RADIUS radiusLimits canvasDimensions) (random k))
                              (random (k + 2)),
                  circle_r = drawn_radius (MAX_RADIUS radiusLimits canvasDimensions) (MIN_RADIUS radiusLimits canvasDimensions) (random k) \<rparr>
              = \<lparr> circle_x = Num x, circle_y = Num y, circle_r = Num r \<rparr>
            \<and> js_sub (Num ?W) (Num r) = Num xmax \<and> js_sub (Num ?H) (Num r) = Num ymax
            \<and> 0 \<le> r \<and> r \<le> x \<and> x \<le> xmax \<and> xmax \<le> ?W
            \<and> r \<le> y \<and> y \<le> ymax \<and> ymax \<le> ?H"
      using r(3) x(2-) y(2-) by blast
  qed
  have ret: "\<forall>out. generateCircleUniformData random numCircles radiusLimits canvasDimensions = Inr out
          \<longrightarrow> (\<forall>i<NUM_CIRCLES. \<exists>x y r xmax ymax.
                 out ! (3 * i) = Num x \<and> out ! (3 * i + 1) = Num y \<and> out ! (3 * i + 2) = Num r
               \<and> fround (js_sub (Num ?W) (circle_r (?cs ! i))) = Num xmax
               \<and> fround (js_sub (Num ?H) (circle_r (?cs ! i))) = Num ymax
               \<and> 0 \<le> r \<and> r \<le> x \<and> x \<le> xmax \<and> r \<le> y \<and> y \<le> ymax)"
  proof (intro allI impI)
    fix out i
    assume out: "generateCircleUniformData random numCircles radiusLimits canvasDimensions = Inr out"
      and i: "i < NUM_CIRCLES"
    have "?cs ! i \<in> set ?cs"
      using generate_returned_records(1) [OF out i] by simp
    then obtain x y r xmax ymax where
      c: "?cs ! i = \<lparr> circle_x = Num x, circle_y = Num y, circle_r = Num r \<rparr>"
      and m: "js_sub (Num ?W) (Num r) = Num xmax" "js_sub (Num ?H) (Num r) = Num ymax"
      and b: "0 \<le> r" "r \<le> x" "x \<le> xmax" "xmax \<le> ?W" "r \<le> y" "y \<le> ymax" "ymax \<le> ?H"
      using gen by blast
    have x0: "0 \<le> x" and y0: "0 \<le> y" using b by linarith+
    have xm0: "0 \<le> xmax" and ym0: "0 \<le> ymax" using b x0 y0 by linarith+
    have "xmax \<le> 2 ^ 127" using b(4) assms(8) by linarith
    then obtain xm32 where xm32: "to_float32 xmax = Num xm32"
      using to_float32_bounded [OF xm0 _ is_float32_pow127] by blast
    have "ymax \<le> 2 ^ 127" using b(7) assms(9) by linarith
    then obtain ym32 where ym32: "to_float32 ymax = Num ym32"
      using to_float32_bounded [OF ym0 _ is_float32_pow127] by blast
    have "x \<le> 2 ^ 127" using b(3,4) assms(8) by linarith
    then obtain x32 where x32: "to_float32 x = Num x32"
      using to_float32_bounded [OF x0 _ is_float32_pow127] by blast
    have "y \<le> 2 ^ 127" using b(6,7) assms(9) by linarith
    then obtain y32 where y32: "to_float32 y = Num y32"
      using to_float32_bounded [OF y0 _ is_float32_pow127] by blast
    have "r \<le> 2 ^ 127" using b(2,3,4) assms(8) by linarith
    then obtain r32 where r32: "to_float32 r = Num r32" "0 \<le> r32"
      using to_float32_bounded [OF b(1) _ is_float32_pow127] by blast
    have rx: "r32 \<le> x32" using b(1,2) r32(1) x32 by (rule to_float32_mono)
    have ry: "r32 \<le> y32" using b(1,5) r32(1) y32 by (rule to_float32_mono)
    have xx: "x32 \<le> xm32" using x0 b(3) x32 xm32 by (rule to_float32_mono)
    have yy: "y32 \<le> ym32" using y0 b(6) y32 ym32 by (rule to_float32_mono)
    have e: "out ! (3 * i) = Num x32" "out ! (3 * i + 1) = Num y32" "out ! (3 * i + 2) = Num r32"
      using generate_returned_records(2-4) [OF out i] by (simp_all add: c x32 y32 r32(1))
    have f: "fround (js_sub (Num ?W) (circle_r (?cs ! i))) = Num xm32"
      "fround (js_sub (Num ?H) (circle_r (?cs ! i))) = Num ym32"
      using m xm32 ym32 by (simp_all add: c)
    show "\<exists>x y r xmax ymax.
                 out ! (3 * i) = Num x \<and> out ! (3 * i + 1) = Num y \<and> out ! (3 * i + 2) = Num r
               \<and> fround (js_sub (Num ?W) (circle_r (?cs ! i))) = Num xmax
               \<and> fround (js_sub (Num ?H) (circle_r (?cs ! i))) = Num ymax
               \<and> 0 \<le> r \<and> r \<le> x \<and> x \<le> xmax \<and> r \<le> y \<and> y \<le> ymax"
      using e f r32(2) rx xx ry yy by blast
  qed
  show ?thesis using gen ret by blast
qed

text \<open>
  The amended C4 at radius limits \<^verbatim>\<open>{min: 50, max: 4}\<close>, a canvas of 100 by 100, twelve
  circles and every draw one half: every record generated is (50, 50, 13.5), the
  rounded difference is 86.5, and the first record returned lies within these bounds.
\<close>

theorem bounding_box_in_canvas_witness:
  "(\<forall>k. is_double (every_draw_half k) \<and> 0 \<le> every_draw_half k \<and> every_draw_half k < 1)
   \<and> is_double 100 \<and> is_double (100 / 2)
   \<and> circlesGenerated every_draw_half 12 \<lparr>min_lim = 50, max_lim = 4\<rparr> \<lparr>width = 100, height = 100\<rparr>
       = replicate 12 \<lparr> circle_x = Num 50, circle_y = Num 50, circle_r = Num (27 / 2) \<rparr>
   \<and> js_sub (Num 100) (Num (27 / 2)) = Num (173 / 2)
   \<and> fround (Num (173 / 2)) = Num (173 / 2)
   \<and> (\<exists>out x y r. generateCircleUniformData every_draw_half 12 \<lparr>min_lim = 50, max_lim = 4\<rparr>
                \<lparr>width = 100, height = 100\<rparr> = Inr out
          \<and> out ! 0 = Num x \<and> out ! 1 = Num y \<and> out ! 2 = Num r
          \<and> 0 \<le> r \<and> r \<le> x \<and> x \<le> 173 / 2 \<and> r \<le> y \<and> y \<le> 173 / 2)"
proof -
  let ?L = "\<lparr>min_lim = 50, max_lim = 4\<rparr>"
  let ?D = "\<lparr>width = 100, height = 100\<rparr>"
  let ?cs = "circlesGenerated every_draw_half 12 ?L ?D"
  have draws: "\<forall>k. is_double (every_draw_half k) \<and> 0 \<le> every_draw_half k \<and> every_draw_half k < 1"
    by (simp add: every_draw_half_def)
  have d: "is_double 100" "is_double (100 / 2)"
    by (rule is_double_half_integer; simp)+
  have cs: "?cs = replicate 12 \<lparr> circle_x = Num 50, circle_y = Num 50, circle_r = Num (27 / 2) \<rparr>"
    by (simp add: circlesGenerated_every_draw_half drawn_center_def drawn_radius_def
          MAX_RADIUS_def MIN_RADIUS_def js_div_def sizeLimit_def to_double_half_integer)
  have sub: "js_sub (Num 100) (Num (27 / 2)) = Num (173 / 2)"
    by (simp add: to_double_half_integer)
  have st: "fround (Num (173 / 2)) = Num (173 / 2)"
    by (simp add: to_float32_half_integer)
  obtain out where out: "generateCircleUniformData every_draw_half 12 ?L ?D = Inr out"
    using generate_returns [of 12 every_draw_half ?L ?D] by (auto simp: NUM_CIRCLES_def)
  have hyp: "2 \<le> max_lim ?L" "2 \<le> min_lim ?L" "is_double (width ?D)" "is_double (height ?D)"
    "0 \<le> width ?D" "0 \<le> height ?D" "width ?D \<le> 2 ^ 127" "height ?D \<le> 2 ^ 127"
    "is_double (sizeLimit ?D / 2)"
    using d by (simp_all add: sizeLimit_def)
  have c0: "circle_r (?cs ! 0) = Num (27 / 2)" unfolding cs by simp
  have "0 < NUM_CIRCLES" by (simp add: NUM_CIRCLES_def)
  with bounding_box_in_canvas [OF draws hyp, of 12] out
  obtain x y r xmax ymax where
    t: "out ! (3 * 0) = Num x" "out ! (3 * 0 + 1) = Num y" "out ! (3 * 0 + 2) = Num r"
      "fround (js_sub (Num (width ?D)) (circle_r (?cs ! 0))) = Num xmax"
      "fround (js_sub (Num (height ?D)) (circle_r (?cs ! 0))) = Num ymax"
      "0 \<le> r" "r \<le> x" "x \<le> xmax" "r \<le> y" "y \<le> ymax"
    by blast
  have "xmax = 173 / 2" "ymax = 173 / 2"
    using t(4,5) unfolding c0 by (simp_all add: to_double_half_integer to_float32_half_integer)
  then have "out ! 0 = Num x \<and> out ! 1 = Num y \<and> out ! 2 = Num r
          \<and> 0 \<le> r \<and> r \<le> x \<and> x \<le> 173 / 2 \<and> r \<le> y \<and> y \<le> 173 / 2"
    using t by (simp add: numeral_2_eq_2)
  then show ?thesis using draws d cs sub st out by blast
qed

end
